theory Spec2Isabelle
  imports Main "HOL-Library.Char_ord" "HOL-Library.List_Lexorder"
begin

section \<open>Python strings and the library calls the program makes\<close>

text \<open>
  Strings are sequences of 8-bit characters: a Python \<open>str\<close> is read through its UTF-8
  encoding, whose bytewise order is the order of the code points that \<open>sorted\<close> uses.
  \<open>lower\<close> and \<open>strip\<close> act on the ASCII range, which covers every default setting of
  the program.
\<close>

definition nl :: string where
  "nl = [CHR 0x0A]"

text \<open>\<open>sep.join(parts)\<close>\<close>

fun join :: "string \<Rightarrow> string list \<Rightarrow> string" where
  "join sep [] = []"
| "join sep [x] = x"
| "join sep (x # y # ys) = x @ sep @ join sep (y # ys)"

text \<open>\<open>s.split(sep)\<close> for a one-character separator: the empty string gives one empty part.\<close>

fun split_on :: "char \<Rightarrow> string \<Rightarrow> string \<Rightarrow> string list" where
  "split_on sep cur [] = [cur]"
| "split_on sep cur (ch # cs) =
     (if ch = sep then cur # split_on sep [] cs else split_on sep (cur @ [ch]) cs)"

definition split :: "char \<Rightarrow> string \<Rightarrow> string list" where
  "split sep s = split_on sep [] s"

text \<open>\<open>line.rstrip('\n')\<close>: every trailing newline character goes.\<close>

definition rstrip_nl :: "string \<Rightarrow> string" where
  "rstrip_nl s = rev (dropWhile (\<lambda>ch. ch = CHR 0x0A) (rev s))"

text \<open>
  Iterating over a text file yields its lines, each with the newline that ends it; a last
  line without a newline is yielded as it is, and an empty file yields nothing.
\<close>

fun lines_from :: "string \<Rightarrow> string \<Rightarrow> string list" where
  "lines_from cur [] = (if cur = [] then [] else [cur])"
| "lines_from cur (ch # cs) =
     (if ch = CHR 0x0A then (cur @ [ch]) # lines_from [] cs else lines_from (cur @ [ch]) cs)"

definition readlines :: "string \<Rightarrow> string list" where
  "readlines s = lines_from [] s"

text \<open>\<open>s.strip()\<close>: the ASCII characters for which \<open>str.isspace\<close> holds.\<close>

definition is_space :: "char \<Rightarrow> bool" where
  "is_space ch = (ch \<in> set [CHR 0x09, CHR 0x0A, CHR 0x0B, CHR 0x0C, CHR 0x0D,
                             CHR 0x1C, CHR 0x1D, CHR 0x1E, CHR 0x1F, CHR 0x20])"

definition strip :: "string \<Rightarrow> string" where
  "strip s = rev (dropWhile is_space (rev (dropWhile is_space s)))"

text \<open>\<open>s.lower()\<close>\<close>

definition lower_char :: "char \<Rightarrow> char" where
  "lower_char ch =
     (case map_of (zip ''ABCDEFGHIJKLMNOPQRSTUVWXYZ'' ''abcdefghijklmnopqrstuvwxyz'') ch of
        Some l \<Rightarrow> l
      | None \<Rightarrow> ch)"

definition lower :: "string \<Rightarrow> string" where
  "lower s = map lower_char s"

text \<open>\<open>str(n)\<close> for a byte count.\<close>

fun str_nat :: "nat \<Rightarrow> string" where
  "str_nat n =
     (if n < 10 then [''0123456789'' ! n]
      else str_nat (n div 10) @ [''0123456789'' ! (n mod 10)])"

declare str_nat.simps [simp del]

text \<open>The number that a string of decimal digits denotes.\<close>

definition decimal_value :: "string \<Rightarrow> nat" where
  "decimal_value s = foldl (\<lambda>acc ch. 10 * acc + (of_char ch - 48)) 0 s"

text \<open>\<open>s.rfind(ch)\<close>: the last index of \<open>ch\<close>, or \<open>-1\<close>.\<close>

fun rfind_from :: "char \<Rightarrow> string \<Rightarrow> int \<Rightarrow> int \<Rightarrow> int" where
  "rfind_from ch [] i found = found"
| "rfind_from ch (x # xs) i found = rfind_from ch xs (i + 1) (if x = ch then i else found)"

definition rfind :: "char \<Rightarrow> string \<Rightarrow> int" where
  "rfind ch s = rfind_from ch s 0 (- 1)"

text \<open>
  \<open>os.path.splitext\<close> (POSIX): the extension starts at the last dot of the last path
  component, unless only dots come before it in that component.
\<close>

definition splitext :: "string \<Rightarrow> string \<times> string" where
  "splitext p =
     (let sepIndex = rfind (CHR ''/'') p;
          dotIndex = rfind (CHR ''.'') p
      in if dotIndex > sepIndex \<and>
            list_ex (\<lambda>ch. ch \<noteq> CHR ''.'')
              (take (nat (dotIndex - (sepIndex + 1))) (drop (nat (sepIndex + 1)) p))
         then (take (nat dotIndex) p, drop (nat dotIndex) p)
         else (p, []))"

text \<open>\<open>os.path.join\<close> of two parts, \<open>os.path.basename\<close> and \<open>os.path.normpath\<close> (POSIX).\<close>

definition path_join :: "string \<Rightarrow> string \<Rightarrow> string" where
  "path_join a b =
     (if b \<noteq> [] \<and> hd b = CHR ''/'' then b
      else if a = [] \<or> last a = CHR ''/'' then a @ b
      else a @ ''/'' @ b)"

definition basename :: "string \<Rightarrow> string" where
  "basename p = drop (nat (rfind (CHR ''/'') p + 1)) p"

fun normpath_comps :: "bool \<Rightarrow> string list \<Rightarrow> string list \<Rightarrow> string list" where
  "normpath_comps initial_slashes [] new_comps = new_comps"
| "normpath_comps initial_slashes (part # comps) new_comps =
     (if part = [] \<or> part = ''.'' then normpath_comps initial_slashes comps new_comps
      else if part \<noteq> ''..'' \<or> (\<not> initial_slashes \<and> new_comps = [])
                \<or> (new_comps \<noteq> [] \<and> last new_comps = ''..'')
        then normpath_comps initial_slashes comps (new_comps @ [part])
      else if new_comps \<noteq> [] then normpath_comps initial_slashes comps (butlast new_comps)
      else normpath_comps initial_slashes comps new_comps)"

definition normpath :: "string \<Rightarrow> string" where
  "normpath path =
     (if path = [] then ''.''
      else
        let initial_slashes =
              (if take 1 path = ''/'' then
                 (if take 2 path = ''//'' \<and> take 3 path \<noteq> ''///'' then 2 else 1)
               else (0::nat));
            comps = normpath_comps (initial_slashes \<noteq> 0) (split (CHR ''/'') path) [];
            p = replicate initial_slashes (CHR ''/'') @ join ''/'' comps
        in if p = [] then ''.'' else p)"

text \<open>
  \<open>os.path.relpath(current_path, root_dir)\<close> for a path that \<open>os.walk\<close> built below
  \<open>root_dir\<close>: the chain of directory names that leads there, \<open>.\<close> at the root itself.
\<close>

definition relpath :: "string list \<Rightarrow> string" where
  "relpath comps = (if comps = [] then ''.'' else join ''/'' comps)"

section \<open>Exceptions, files and directories\<close>

datatype error = ValueError string | OSError string | UnicodeDecodeError string

text \<open>\<open>str(e)\<close>\<close>

fun str_error :: "error \<Rightarrow> string" where
  "str_error (ValueError msg) = msg"
| "str_error (OSError msg) = msg"
| "str_error (UnicodeDecodeError msg) = msg"

text \<open>
  What the program can observe of an entry that is not a directory: the outcome of
  \<open>os.path.getsize\<close>, the decoded text that iterating over the opened file delivers, and
  the exception (if any) that opening or reading raises once that text has been delivered.
  A dangling symbolic link is such an entry whose \<open>st_size\<close> is an error.
\<close>

record fsfile =
  st_size :: "error + nat"
  content :: string
  read_fails :: "error option"

text \<open>
  A directory lists its entries in the order the file system iterates them; \<open>DirDenied\<close>
  is a directory whose listing raises. Symbolic links to directories are left out.
\<close>

datatype fsnode =
    File fsfile
  | Dir "(string \<times> fsnode) list"
  | DirDenied error

fun is_dir :: "fsnode \<Rightarrow> bool" where
  "is_dir (File f) = False"
| "is_dir (Dir es) = True"
| "is_dir (DirDenied e) = True"

text \<open>
  The configuration. \<open>generator.py\<close> fixes it (\<open>generator_config\<close>) and also hides
  files with an ignored extension from the tree; \<open>repoforge.py\<close> takes the sets and the
  caps as arguments and renders every file in the tree. Python compares an integer size
  with a float cap by value, so the float default \<open>1e20\<close> is the integer \<open>10 ^ 20\<close>.
\<close>

record config =
  ignored_dirs :: "string set"
  ignored_extensions :: "string set"
  max_file_size_bytes :: int
  max_summary_lines :: int
  tree_filters_extensions :: bool

definition IGNORED_DIRS :: "string set" where
  "IGNORED_DIRS = {''.git'', ''__pycache__'', ''.idea'', ''.vscode''}"

definition IGNORED_EXTENSIONS :: "string set" where
  "IGNORED_EXTENSIONS = {''.pyc'', ''.png'', ''.jpg'', ''.jpeg'', ''.gif'', ''.pdf'', ''.zip''}"

definition generator_config :: config where
  "generator_config =
     \<lparr>ignored_dirs = IGNORED_DIRS, ignored_extensions = IGNORED_EXTENSIONS,
      max_file_size_bytes = 100000, max_summary_lines = 500,
      tree_filters_extensions = True\<rparr>"

definition repoforge_default_config :: config where
  "repoforge_default_config =
     \<lparr>ignored_dirs = IGNORED_DIRS, ignored_extensions = IGNORED_EXTENSIONS,
      max_file_size_bytes = 10 ^ 20, max_summary_lines = 500,
      tree_filters_extensions = False\<rparr>"

section \<open>File Summarizer\<close>

text \<open>
  The loop of \<open>summarize_text_file\<close>: \<open>i\<close> counts the lines delivered so far. The
  iterator is asked for a line before \<open>i\<close> is compared with the cap, so a failure that
  comes right after the last line below the cap is still met.
\<close>

fun summarize_loop ::
  "int \<Rightarrow> int \<Rightarrow> string list \<Rightarrow> error option \<Rightarrow> string list \<Rightarrow> error + string list" where
  "summarize_loop max_lines i [] None summary_lines = Inr summary_lines"
| "summarize_loop max_lines i [] (Some e) summary_lines = Inl e"
| "summarize_loop max_lines i (line # rest) fails summary_lines =
     (if i \<ge> max_lines then Inr (summary_lines @ [''... [Truncated]''])
      else summarize_loop max_lines (i + 1) rest fails (summary_lines @ [rstrip_nl line]))"

definition summarize_text_file :: "fsfile \<Rightarrow> int \<Rightarrow> string" where
  "summarize_text_file f max_lines =
     join nl
       (case summarize_loop max_lines 0 (readlines (content f)) (read_fails f) [] of
          Inr summary_lines \<Rightarrow> summary_lines
        | Inl e \<Rightarrow> [''Error reading file: '' @ str_error e])"

section \<open>Tree Renderer\<close>

text \<open>
  The connectors and indentations of the tree, as UTF-8: \<open>branch_last\<close> is the corner
  with two dashes and a space, \<open>branch_mid\<close> the tee with two dashes and a space,
  \<open>indent_bar\<close> the vertical bar with three spaces.
\<close>

definition branch_last :: string where
  "branch_last = [CHR 0xE2, CHR 0x94, CHR 0x94, CHR 0xE2, CHR 0x94, CHR 0x80,
                  CHR 0xE2, CHR 0x94, CHR 0x80, CHR 0x20]"

definition branch_mid :: string where
  "branch_mid = [CHR 0xE2, CHR 0x94, CHR 0x9C, CHR 0xE2, CHR 0x94, CHR 0x80,
                 CHR 0xE2, CHR 0x94, CHR 0x80, CHR 0x20]"

definition indent_bar :: string where
  "indent_bar = [CHR 0xE2, CHR 0x94, CHR 0x82, CHR 0x20, CHR 0x20, CHR 0x20]"

definition indent_blank :: string where
  "indent_blank = ''    ''"

text \<open>
  \<open>walk_directory\<close> returns the lines that the nested function of
  \<open>create_directory_tree\<close> appends to \<open>tree_lines\<close>, or the exception that ends it:
  \<open>os.listdir\<close> raises on a directory that cannot be listed. The names are sorted, then
  filtered by the ignored-directory set, and each is looked up again (\<open>os.path.isdir\<close>)
  when its turn comes. \<open>collect\<close> puts the lines of the loop's rounds together, up to the
  first exception.
\<close>

fun collect :: "(error + 'a list) list \<Rightarrow> error + 'a list" where
  "collect [] = Inr []"
| "collect (Inl e # rs) = Inl e"
| "collect (Inr xs # rs) = (case collect rs of Inl e \<Rightarrow> Inl e | Inr ys \<Rightarrow> Inr (xs @ ys))"

lemma lookup_smaller [termination_simp]:
  "map_of es entry = Some n \<Longrightarrow> size n < Suc (size_list (size_prod (\<lambda>_. 0) size) es)"
  by (induction es) (auto split: if_splits)

function walk_directory :: "config \<Rightarrow> fsnode \<Rightarrow> string \<Rightarrow> error + string list" where
  "walk_directory c (File f) prefix = Inl (OSError ''Not a directory'')"
| "walk_directory c (DirDenied e) prefix = Inl e"
| "walk_directory c (Dir es) prefix =
     (let entries = sort (map fst es);
          entries = filter (\<lambda>e. e \<notin> ignored_dirs c) entries
      in collect (map (\<lambda>(i, entry).
           let connector = (if i = length entries - 1 then branch_last else branch_mid);
               file_lines = (if tree_filters_extensions c
                                \<and> lower (snd (splitext entry)) \<in> ignored_extensions c
                             then [] else [prefix @ connector @ entry])
           in case map_of es entry of
                Some n \<Rightarrow>
                  if is_dir n then
                    (case walk_directory c n
                            (prefix @ (if i = length entries - 1 then indent_blank else indent_bar)) of
                       Inl e \<Rightarrow> Inl e
                     | Inr below \<Rightarrow> Inr ((prefix @ connector @ entry @ ''/'') # below))
                  else Inr file_lines
              | None \<Rightarrow> Inr file_lines)
         (enumerate 0 entries)))"
  by pat_completeness auto
termination
  by (relation "measure (\<lambda>(c, n, p). size n)") (auto simp: lookup_smaller)

definition root_basename :: "string \<Rightarrow> string" where
  "root_basename root_dir =
     (let b = basename (normpath root_dir) in if b \<noteq> [] then b else root_dir)"

definition create_directory_tree :: "config \<Rightarrow> string \<Rightarrow> fsnode \<Rightarrow> error + string" where
  "create_directory_tree c root_dir root =
     (case walk_directory c root [] of
        Inl e \<Rightarrow> Inl e
      | Inr tree_lines \<Rightarrow> Inr (join nl ((root_basename root_dir @ ''/'') # tree_lines)))"

section \<open>Repository Walker\<close>

text \<open>
  The walker returns the repository summary or the exception that ends it, together with
  the system calls it has made on the way: \<open>Scandir\<close> by \<open>os.walk\<close> for each directory
  it reaches, \<open>Getsize\<close> for \<open>os.path.getsize\<close> and \<open>Open\<close> for the \<open>open\<close> of
  \<open>summarize_text_file\<close>. \<open>file_loop\<close> is the loop over the files of one directory,
  \<open>os_walk\<close> the loop over the directories: \<open>os.walk\<close> yields a directory before its
  subdirectories, takes the subdirectories from the list that the loop body has filtered,
  and passes over a directory that it cannot list. \<open>io_seq\<close> runs the rounds one after
  the other, up to the first exception.
\<close>

datatype event = Scandir string | Getsize string | Open string

record file_summary =
  name :: string
  summary :: string

record dir_entry =
  directory :: string
  files :: "file_summary list"

definition after :: "event list \<Rightarrow> event list \<times> 'a \<Rightarrow> event list \<times> 'a" where
  "after evs r = (evs @ fst r, snd r)"

fun io_seq :: "(event list \<times> (error + 'a list)) list \<Rightarrow> event list \<times> (error + 'a list)" where
  "io_seq [] = ([], Inr [])"
| "io_seq ((evs, Inl e) # rs) = (evs, Inl e)"
| "io_seq ((evs, Inr xs) # rs) =
     (case io_seq rs of
        (evs', Inl e) \<Rightarrow> (evs @ evs', Inl e)
      | (evs', Inr ys) \<Rightarrow> (evs @ evs', Inr (xs @ ys)))"

fun nondirs :: "(string \<times> fsnode) list \<Rightarrow> (string \<times> fsfile) list" where
  "nondirs [] = []"
| "nondirs ((filename, File f) # es) = (filename, f) # nondirs es"
| "nondirs ((d, n) # es) = nondirs es"

fun file_loop ::
  "config \<Rightarrow> string \<Rightarrow> (string \<times> fsfile) list \<Rightarrow> file_summary list
     \<Rightarrow> event list \<times> (error + file_summary list)" where
  "file_loop c current_path [] file_summaries = ([], Inr file_summaries)"
| "file_loop c current_path ((filename, f) # rest) file_summaries =
     (let ext = snd (splitext filename) in
      if lower ext \<in> ignored_extensions c then file_loop c current_path rest file_summaries
      else
        let full_path = path_join current_path filename in
        case st_size f of
          Inl e \<Rightarrow> ([Getsize full_path], Inl e)
        | Inr size_bytes \<Rightarrow>
            if int size_bytes > max_file_size_bytes c then
              after [Getsize full_path]
                (file_loop c current_path rest
                   (file_summaries @
                    [\<lparr>name = filename,
                      summary = ''File size ('' @ str_nat size_bytes
                                 @ '' bytes) exceeds limit; skipping content.''\<rparr>]))
            else
              after [Getsize full_path, Open full_path]
                (file_loop c current_path rest
                   (file_summaries @
                    [\<lparr>name = filename,
                      summary = summarize_text_file f (max_summary_lines c)\<rparr>])))"

lemma entry_smaller [termination_simp]:
  "(d, n) \<in> set es \<Longrightarrow> size n < Suc (size_list (size_prod (\<lambda>_. 0) size) es)"
  by (induction es) auto

function os_walk ::
  "config \<Rightarrow> string \<Rightarrow> string list \<Rightarrow> fsnode \<Rightarrow> event list \<times> (error + dir_entry list)" where
  "os_walk c current_path comps (File f) = ([Scandir current_path], Inr [])"
| "os_walk c current_path comps (DirDenied e) = ([Scandir current_path], Inr [])"
| "os_walk c current_path comps (Dir es) =
     (let dirs = filter (\<lambda>(d, n). is_dir n) es;
          files = nondirs es;
          dirs = filter (\<lambda>(d, n). d \<notin> ignored_dirs c) dirs;
          rel_dir = relpath comps;
          rel_dir = (if rel_dir = ''.'' then [] else rel_dir);
          visit =
            (case file_loop c current_path files [] of
               (evs, Inl e) \<Rightarrow> (Scandir current_path # evs, Inl e)
             | (evs, Inr file_summaries) \<Rightarrow>
                 (Scandir current_path # evs,
                  Inr (if file_summaries \<noteq> []
                       then [\<lparr>directory = rel_dir, files = file_summaries\<rparr>] else [])))
      in io_seq (visit #
           map (\<lambda>(d, n). os_walk c (path_join current_path d) (comps @ [d]) n) dirs))"
  by pat_completeness auto
termination
  by (relation "measure (\<lambda>(c, p, comps, n). size n)") (auto simp: entry_smaller)

definition create_repo_summary ::
  "config \<Rightarrow> string \<Rightarrow> fsnode \<Rightarrow> event list \<times> (error + dir_entry list)" where
  "create_repo_summary c root_dir root = os_walk c root_dir [] root"

section \<open>What the walker visits and records\<close>

text \<open>
  The vocabulary in which the properties of the walker are stated. A file is eligible when
  its lower-cased extension is not in the ignored-extension set. \<open>visited_dirs\<close> lists the
  directories that \<open>os.walk\<close> reaches, in order, each with the path it is reached by, the
  names that lead to it from the root, and its listing; a directory whose listing fails is
  reached and seen as empty. \<open>summary_of\<close> is the record of one eligible file,
  \<open>dir_entry_of\<close> the record of one directory, and \<open>file_events\<close> and \<open>dir_events\<close>
  are the system calls made for them.
\<close>

definition eligible :: "config \<Rightarrow> string \<Rightarrow> bool" where
  "eligible c filename = (lower (snd (splitext filename)) \<notin> ignored_extensions c)"

definition summary_of :: "config \<Rightarrow> string \<times> fsfile \<Rightarrow> file_summary" where
  "summary_of c entry =
     \<lparr>name = fst entry,
      summary =
        (case st_size (snd entry) of
           Inr size_bytes \<Rightarrow>
             if int size_bytes > max_file_size_bytes c
             then ''File size ('' @ str_nat size_bytes @ '' bytes) exceeds limit; skipping content.''
             else summarize_text_file (snd entry) (max_summary_lines c)
         | Inl e \<Rightarrow> [])\<rparr>"

definition file_events :: "config \<Rightarrow> string \<Rightarrow> string \<times> fsfile \<Rightarrow> event list" where
  "file_events c current_path entry =
     (if \<not> eligible c (fst entry) then []
      else case st_size (snd entry) of
             Inr size_bytes \<Rightarrow>
               if int size_bytes > max_file_size_bytes c
               then [Getsize (path_join current_path (fst entry))]
               else [Getsize (path_join current_path (fst entry)),
                     Open (path_join current_path (fst entry))]
           | Inl e \<Rightarrow> [Getsize (path_join current_path (fst entry))])"

function visited_dirs ::
  "config \<Rightarrow> string \<Rightarrow> string list \<Rightarrow> fsnode
     \<Rightarrow> (string \<times> string list \<times> (string \<times> fsnode) list) list" where
  "visited_dirs c current_path comps (File f) = [(current_path, comps, [])]"
| "visited_dirs c current_path comps (DirDenied e) = [(current_path, comps, [])]"
| "visited_dirs c current_path comps (Dir es) =
     (current_path, comps, es) #
     concat (map (\<lambda>(d, n). visited_dirs c (path_join current_path d) (comps @ [d]) n)
               (filter (\<lambda>(d, n). is_dir n \<and> d \<notin> ignored_dirs c) es))"
  by pat_completeness auto
termination
  by (relation "measure (\<lambda>(c, p, comps, n). size n)") (auto simp: entry_smaller)

definition rel_dir_of :: "string list \<Rightarrow> string" where
  "rel_dir_of comps = (if relpath comps = ''.'' then [] else relpath comps)"

definition eligible_files :: "config \<Rightarrow> (string \<times> fsnode) list \<Rightarrow> (string \<times> fsfile) list" where
  "eligible_files c es = filter (\<lambda>entry. eligible c (fst entry)) (nondirs es)"

definition dir_entry_of ::
  "config \<Rightarrow> string \<times> string list \<times> (string \<times> fsnode) list \<Rightarrow> dir_entry" where
  "dir_entry_of c v =
     \<lparr>directory = rel_dir_of (fst (snd v)),
      files = map (summary_of c) (eligible_files c (snd (snd v)))\<rparr>"

definition has_eligible ::
  "config \<Rightarrow> string \<times> string list \<times> (string \<times> fsnode) list \<Rightarrow> bool" where
  "has_eligible c v = (eligible_files c (snd (snd v)) \<noteq> [])"

definition dir_events ::
  "config \<Rightarrow> string \<times> string list \<times> (string \<times> fsnode) list \<Rightarrow> event list" where
  "dir_events c v =
     Scandir (fst v) # concat (map (file_events c (fst v)) (nondirs (snd (snd v))))"

text \<open>
  Changing files that the walker is said not to look at. \<open>map_files g\<close> replaces every
  file in a directory tree by what \<open>g\<close> makes of its name and itself;
  \<open>rewrite_oversized\<close> lets \<open>g\<close> change everything but the size of the files above the
  size cap, and \<open>rewrite_ignored\<close> lets it change the files with an ignored extension
  in any way. \<open>unread c a f f'\<close> says that the walker cannot tell \<open>f'\<close> from \<open>f\<close> under
  the name \<open>a\<close>.
\<close>

function map_files :: "(string \<Rightarrow> fsfile \<Rightarrow> fsfile) \<Rightarrow> fsnode \<Rightarrow> fsnode" where
  "map_files g (File f) = File f"
| "map_files g (DirDenied e) = DirDenied e"
| "map_files g (Dir es) =
     Dir (map (\<lambda>(a, n). (a, case n of File f \<Rightarrow> File (g a f) | _ \<Rightarrow> map_files g n)) es)"
  by pat_completeness auto
termination
  by (relation "measure (\<lambda>(g, n). size n)") (auto dest: entry_smaller)

definition rewrite_oversized ::
  "config \<Rightarrow> (string \<Rightarrow> fsfile \<Rightarrow> fsfile) \<Rightarrow> string \<Rightarrow> fsfile \<Rightarrow> fsfile" where
  "rewrite_oversized c g a f =
     (case st_size f of
        Inr size_bytes \<Rightarrow>
          if int size_bytes > max_file_size_bytes c then (g a f)\<lparr>st_size := st_size f\<rparr> else f
      | Inl e \<Rightarrow> f)"

definition rewrite_ignored ::
  "config \<Rightarrow> (string \<Rightarrow> fsfile \<Rightarrow> fsfile) \<Rightarrow> string \<Rightarrow> fsfile \<Rightarrow> fsfile" where
  "rewrite_ignored c g a f = (if eligible c a then f else g a f)"

definition unread :: "config \<Rightarrow> string \<Rightarrow> fsfile \<Rightarrow> fsfile \<Rightarrow> bool" where
  "unread c a f f' =
     (\<not> eligible c a \<or> f' = f
      \<or> (st_size f' = st_size f
          \<and> (case st_size f of Inr size_bytes \<Rightarrow> int size_bytes > max_file_size_bytes c
              | Inl e \<Rightarrow> True)))"

text \<open>
  Directory trees without some of their entries. \<open>prune_by rm\<close> deletes, at every level,
  the entries that \<open>rm\<close> selects by name and node, with all that is below them;
  \<open>prune c\<close> deletes the directories whose name is in the ignored-directory set, and
  \<open>prune_names c\<close> every entry, file or directory, with such a name. \<open>has_entry rm\<close>
  says that a tree has an entry that \<open>rm\<close> selects.
\<close>

function prune_by :: "(string \<Rightarrow> fsnode \<Rightarrow> bool) \<Rightarrow> fsnode \<Rightarrow> fsnode" where
  "prune_by rm (File f) = File f"
| "prune_by rm (DirDenied e) = DirDenied e"
| "prune_by rm (Dir es) =
     Dir (map (\<lambda>(a, n). (a, prune_by rm n)) (filter (\<lambda>(a, n). \<not> rm a n) es))"
  by pat_completeness auto
termination
  by (relation "measure (\<lambda>(rm, n). size n)") (auto dest: entry_smaller)

definition prune :: "config \<Rightarrow> fsnode \<Rightarrow> fsnode" where
  "prune c = prune_by (\<lambda>a n. is_dir n \<and> a \<in> ignored_dirs c)"

definition prune_names :: "config \<Rightarrow> fsnode \<Rightarrow> fsnode" where
  "prune_names c = prune_by (\<lambda>a n. a \<in> ignored_dirs c)"

fun has_entry :: "(string \<Rightarrow> fsnode \<Rightarrow> bool) \<Rightarrow> fsnode \<Rightarrow> bool" where
  "has_entry rm (Dir es) = list_ex (\<lambda>(a, n). rm a n \<or> has_entry rm n) es"
| "has_entry rm n = False"

definition has_ignored_dir :: "config \<Rightarrow> fsnode \<Rightarrow> bool" where
  "has_ignored_dir c = has_entry (\<lambda>a n. is_dir n \<and> a \<in> ignored_dirs c)"

definition has_ignored_name :: "config \<Rightarrow> fsnode \<Rightarrow> bool" where
  "has_ignored_name c = has_entry (\<lambda>a n. a \<in> ignored_dirs c)"

section \<open>Prompt Formatter\<close>

definition content_lines :: "string \<Rightarrow> string list" where
  "content_lines s = map (\<lambda>line. ''         '' @ line) (split (CHR 0x0A) s)"

definition file_parts :: "file_summary \<Rightarrow> string list" where
  \<open>file_parts file_info =
     [''    <file name="'' @ name file_info @ ''">'', ''      <content>'']
     @ content_lines (summary file_info)
     @ [''      </content>'', ''    </file>'']\<close>

definition directory_parts :: "dir_entry \<Rightarrow> string list" where
  \<open>directory_parts entry =
     (let dir_path = (if directory entry \<noteq> [] then directory entry else ''(top-level)'')
      in [''  <directory name="'' @ dir_path @ ''">'']
         @ concat (map file_parts (files entry))
         @ [''  </directory>''])\<close>

definition message_or :: "string option \<Rightarrow> string \<Rightarrow> string" where
  "message_or message fallback =
     (case message of
        None \<Rightarrow> fallback
      | Some s \<Rightarrow> if s \<noteq> [] then strip s else fallback)"

definition prompt_parts ::
  "dir_entry list \<Rightarrow> string \<Rightarrow> string option \<Rightarrow> string option \<Rightarrow> string list" where
  "prompt_parts repo_summary directory_tree system_message user_instructions =
     [''DIRECTORY TREE:'', directory_tree, [],
      ''<SYSTEM_MESSAGE>'',
      message_or system_message ''No system message provided.'',
      ''</SYSTEM_MESSAGE>'' @ nl,
      ''<USER_INSTRUCTIONS>'',
      message_or user_instructions ''No user instructions provided.'',
      ''</USER_INSTRUCTIONS>'' @ nl,
      ''<REPOSITORY_CONTENTS>'']
     @ concat (map directory_parts repo_summary)
     @ [''</REPOSITORY_CONTENTS>'']"

definition format_prompt_xml ::
  "dir_entry list \<Rightarrow> string \<Rightarrow> string option \<Rightarrow> string option \<Rightarrow> string" where
  "format_prompt_xml repo_summary directory_tree system_message user_instructions =
     join nl (prompt_parts repo_summary directory_tree system_message user_instructions)"

text \<open>
  What it means for \<open>t\<close> to be \<open>s\<close> with leading and trailing whitespace trimmed: \<open>t\<close>
  is a stretch of \<open>s\<close> with only whitespace before and after it, and \<open>t\<close> neither
  starts nor ends with whitespace.
\<close>

definition trimmed :: "string \<Rightarrow> string \<Rightarrow> bool" where
  "trimmed s t =
     ((\<exists>l r. s = l @ t @ r \<and> list_all is_space l \<and> list_all is_space r)
      \<and> (t = [] \<or> (\<not> is_space (hd t) \<and> \<not> is_space (last t))))"

section \<open>Entry Point\<close>

definition generate_prompt ::
  "config \<Rightarrow> string \<Rightarrow> fsnode option \<Rightarrow> string option \<Rightarrow> string option \<Rightarrow> error + string" where
  "generate_prompt c repo_dir root system_message user_instructions =
     (case root of
        None \<Rightarrow> Inl (ValueError (''Directory '' @ repo_dir @ '' does not exist.''))
      | Some (File f) \<Rightarrow> Inl (ValueError (''Directory '' @ repo_dir @ '' does not exist.''))
      | Some n \<Rightarrow>
          (case create_directory_tree c repo_dir n of
             Inl e \<Rightarrow> Inl e
           | Inr directory_tree \<Rightarrow>
               (case snd (create_repo_summary c repo_dir n) of
                  Inl e \<Rightarrow> Inl e
                | Inr repo_summary \<Rightarrow>
                    Inr (format_prompt_xml repo_summary directory_tree
                           system_message user_instructions))))"

section \<open>Example inputs\<close>

definition three_lines :: fsfile where
  "three_lines = \<lparr>st_size = Inr 6, content = ''a'' @ nl @ ''b'' @ nl @ ''c'', read_fails = None\<rparr>"


definition text_file :: "string \<Rightarrow> fsfile" where
  "text_file s = \<lparr>st_size = Inr (length s), content = s, read_fails = None\<rparr>"

definition example_root :: fsnode where
  "example_root =
     Dir [(''a.txt'', File (text_file (''hello'' @ nl))),
          (''.git'', Dir [(''config'', File (text_file (''[core]'' @ nl)))])]"

definition big_file :: fsfile where
  "big_file = \<lparr>st_size = Inr 100001, content = ''never read'', read_fails = None\<rparr>"

definition listing_a :: "(string \<times> fsnode) list" where
  "listing_a = [(''big.bin'', File big_file), (''pic.PNG'', File (text_file ''x''))]"


definition upper_config :: config where
  "upper_config = repoforge_default_config\<lparr>ignored_extensions := {''.PNG''}\<rparr>"

definition dangling_link :: fsfile where
  "dangling_link =
     \<lparr>st_size = Inl (OSError ''[Errno 2] No such file or directory''),
      content = [],
      read_fails = Some (OSError ''[Errno 2] No such file or directory'')\<rparr>"

definition listing_c :: "(string \<times> fsnode) list" where
  "listing_c = [(''b.txt'', File (text_file ''bee'')), (''.git'', File (text_file ''gitdir: x''))]"

section \<open>Properties of the File Summarizer\<close>

lemma summarize_loop_eq:
  "summarize_loop m i ls fails acc =
     (if length ls > nat (m - i)
      then Inr (acc @ map rstrip_nl (take (nat (m - i)) ls) @ [''... [Truncated]''])
      else (case fails of None \<Rightarrow> Inr (acc @ map rstrip_nl ls) | Some e \<Rightarrow> Inl e))"
proof (induction ls arbitrary: i acc)
  case Nil
  then show ?case by (cases fails) simp_all
next
  case (Cons l ls)
  show ?case
  proof (cases "i \<ge> m")
    case True
    then show ?thesis by simp
  next
    case False
    then have k: "nat (m - i) = Suc (nat (m - (i + 1)))" by simp
    show ?thesis using False Cons.IH[of "i + 1" "acc @ [rstrip_nl l]"]
      by (simp add: k del: nat_diff_distrib' split: option.splits)
  qed
qed

lemma dropWhile_no_nl:
  "CHR 0x0A \<notin> set xs \<Longrightarrow> dropWhile (\<lambda>ch. ch = CHR 0x0A) xs = xs"
  by (cases xs) auto

lemma rstrip_nl_body:
  "CHR 0x0A \<notin> set body \<Longrightarrow> rstrip_nl (body @ nl) = body"
  "CHR 0x0A \<notin> set body \<Longrightarrow> rstrip_nl body = body"
  by (simp_all add: rstrip_nl_def nl_def dropWhile_no_nl)

lemma lines_from_shape:
  "CHR 0x0A \<notin> set cur \<Longrightarrow> l \<in> set (lines_from cur s) \<Longrightarrow>
     \<exists>body. CHR 0x0A \<notin> set body \<and> (l = body @ nl \<or> (l = body \<and> body \<noteq> []))"
proof (induction s arbitrary: cur)
  case Nil
  then show ?case by (auto split: if_splits)
next
  case (Cons ch cs)
  show ?case
  proof (cases "ch = CHR 0x0A")
    case True
    with Cons.prems have "l = cur @ nl \<or> l \<in> set (lines_from [] cs)" by (auto simp: nl_def)
    then show ?thesis using Cons.IH[of "[]"] Cons.prems(1) by auto
  next
    case False
    with Cons.prems have "l \<in> set (lines_from (cur @ [ch]) cs)" by simp
    then show ?thesis using Cons.IH[of "cur @ [ch]"] Cons.prems(1) False by auto
  qed
qed

lemma concat_lines_from: "concat (lines_from cur s) = cur @ s"
  by (induction s arbitrary: cur) auto

lemma readlines_shape:
  "l \<in> set (readlines s) \<Longrightarrow>
     \<exists>body. CHR 0x0A \<notin> set body \<and> (l = body @ nl \<or> l = body) \<and> l \<noteq> [] \<and> rstrip_nl l = body"
proof -
  assume "l \<in> set (readlines s)"
  then obtain body where b: "CHR 0x0A \<notin> set body" "l = body @ nl \<or> (l = body \<and> body \<noteq> [])"
    using lines_from_shape[of "[]" l s] by (auto simp: readlines_def)
  then have "rstrip_nl l = body" using rstrip_nl_body[of body] by auto
  moreover have "l \<noteq> []" using b by (auto simp: nl_def)
  ultimately show ?thesis using b by blast
qed

text \<open>
  C1. A file that reads without failure is summarised by its first \<open>min n max_lines\<close>
  lines (\<open>n\<close> the number of lines of the file), each without the newline that ends it,
  followed by the single line \<open>... [Truncated]\<close> exactly when \<open>n > max_lines\<close>. Every
  line of a file has at most one newline, at its end, so stripping removes exactly that
  one. Nothing after line \<open>max_lines + 1\<close> is looked at: a file that agrees on the first
  \<open>max_lines + 1\<close> lines has the same summary, whatever follows and even if reading it
  would fail later.
\<close>

theorem summarize_text_file_lines:
  assumes "read_fails (f::fsfile) = None" and "0 \<le> max_lines"
  shows "summarize_text_file f max_lines =
           join nl (map rstrip_nl (take (min (length (readlines (content f))) (nat max_lines))
                                    (readlines (content f)))
                    @ (if int (length (readlines (content f))) > max_lines
                       then [''... [Truncated]''] else []))
       \<and> (\<forall>l \<in> set (readlines (content f)).
            \<exists>body. CHR 0x0A \<notin> set body \<and> (l = body @ nl \<or> l = body) \<and> rstrip_nl l = body)
       \<and> (\<forall>g::fsfile. int (length (readlines (content f))) > max_lines
              \<and> take (Suc (nat max_lines)) (readlines (content g))
                  = take (Suc (nat max_lines)) (readlines (content f))
            \<longrightarrow> summarize_text_file g max_lines = summarize_text_file f max_lines)"
proof (intro conjI ballI allI impI)
  let ?ls = "readlines (content f)"
  have m: "(int (length ?ls) > max_lines) = (length ?ls > nat max_lines)"
    using assms(2) by linarith
  show "summarize_text_file f max_lines =
           join nl (map rstrip_nl (take (min (length ?ls) (nat max_lines)) ?ls)
                    @ (if int (length ?ls) > max_lines then [''... [Truncated]''] else []))"
    unfolding m by (simp add: summarize_text_file_def summarize_loop_eq assms(1))
next
  fix l assume "l \<in> set (readlines (content f))"
  then show "\<exists>body. CHR 0x0A \<notin> set body \<and> (l = body @ nl \<or> l = body) \<and> rstrip_nl l = body"
    using readlines_shape by blast
next
  fix g :: fsfile
  let ?ls = "readlines (content f)" and ?gs = "readlines (content g)"
  assume a: "int (length ?ls) > max_lines
              \<and> take (Suc (nat max_lines)) ?gs = take (Suc (nat max_lines)) ?ls"
  then have lf: "length ?ls > nat max_lines" using assms(2) by linarith
  from a have "length (take (Suc (nat max_lines)) ?gs) = length (take (Suc (nat max_lines)) ?ls)"
    by simp
  with lf have lg: "length ?gs > nat max_lines" by simp
  from a have "take (nat max_lines) (take (Suc (nat max_lines)) ?gs)
             = take (nat max_lines) (take (Suc (nat max_lines)) ?ls)" by simp
  then have t: "take (nat max_lines) ?gs = take (nat max_lines) ?ls" by (simp add: min_def)
  show "summarize_text_file g max_lines = summarize_text_file f max_lines"
    using lf lg t by (simp add: summarize_text_file_def summarize_loop_eq)
qed

theorem summarize_text_file_lines_witness:
  "summarize_text_file three_lines 2 = ''a'' @ nl @ ''b'' @ nl @ ''... [Truncated]''
   \<and> summarize_text_file three_lines 3 = ''a'' @ nl @ ''b'' @ nl @ ''c''"
  using summarize_text_file_lines[of three_lines 2] summarize_text_file_lines[of three_lines 3]
  by (simp add: three_lines_def readlines_def nl_def rstrip_nl_def)

text \<open>A cap below zero acts as the cap zero, except that an empty file gets no marker.\<close>

lemma summarize_negative_cap:
  "max_lines \<le> 0 \<Longrightarrow>
   summarize_text_file (f::fsfile) max_lines =
     (if readlines (content f) \<noteq> [] then ''... [Truncated]''
      else case read_fails f of None \<Rightarrow> [] | Some e \<Rightarrow> ''Error reading file: '' @ str_error e)"
  by (auto simp: summarize_text_file_def summarize_loop_eq split: option.splits)

section \<open>Properties of the Prompt Formatter\<close>

lemma join_Cons: "xs \<noteq> [] \<Longrightarrow> join sep (x # xs) = x @ sep @ join sep xs"
  by (cases xs) simp_all

lemma dropWhile_split: "\<exists>l. xs = l @ dropWhile P xs \<and> list_all P l"
proof -
  have "xs = takeWhile P xs @ dropWhile P xs" by simp
  moreover have "list_all P (takeWhile P xs)"
    by (auto simp: list_all_iff dest: set_takeWhileD)
  ultimately show ?thesis by blast
qed

lemma dropWhile_hd: "dropWhile P xs \<noteq> [] \<Longrightarrow> \<not> P (hd (dropWhile P xs))"
  using hd_dropWhile by blast

lemma strip_trimmed: "trimmed s (strip s)"
proof -
  define a where "a = dropWhile is_space s"
  define b where "b = dropWhile is_space (rev a)"
  obtain l where l: "s = l @ a" "list_all is_space l"
    unfolding a_def using dropWhile_split by blast
  obtain r' where r: "rev a = r' @ b" "list_all is_space r'"
    unfolding b_def using dropWhile_split by blast
  have a: "a = rev b @ rev r'" using r(1) by (metis rev_append rev_rev_ident)
  have s: "strip s = rev b" by (simp add: strip_def a_def b_def)
  have 1: "s = l @ strip s @ rev r'" using l(1) a s by simp
  have 2: "list_all is_space (rev r')" using r(2) by (simp add: list_all_iff)
  have 3: "\<not> is_space (last (strip s))" if "strip s \<noteq> []"
  proof -
    from that have ne: "b \<noteq> []" using s by simp
    then have "\<not> is_space (hd b)" unfolding b_def by (rule dropWhile_hd)
    then show ?thesis using s ne by (simp add: last_rev)
  qed
  have 4: "\<not> is_space (hd (strip s))" if "strip s \<noteq> []"
  proof -
    from that have ne: "b \<noteq> []" using s by simp
    then have ane: "a \<noteq> []" using a by simp
    have "hd (strip s) = hd a" using a s ne by simp
    moreover have "\<not> is_space (hd a)" using ane unfolding a_def by (rule dropWhile_hd)
    ultimately show ?thesis by simp
  qed
  show ?thesis unfolding trimmed_def using 1 l(2) 2 3 4 by blast
qed

text \<open>
  C7. The output carries, between the \<open>SYSTEM_MESSAGE\<close> tags, the literal
  \<open>No system message provided.\<close> when the system message is absent or empty and the
  trimmed message otherwise; and between the \<open>USER_INSTRUCTIONS\<close> tags, the literal
  \<open>No user instructions provided.\<close> when the user instructions are absent or empty and
  the trimmed instructions otherwise. \<open>strip\<close> trims leading and trailing whitespace.
\<close>

theorem format_prompt_xml_messages:
  "format_prompt_xml repo_summary directory_tree system_message user_instructions =
     ''DIRECTORY TREE:'' @ nl @ directory_tree @ nl @ nl
     @ ''<SYSTEM_MESSAGE>'' @ nl
     @ (if system_message = None \<or> system_message = Some []
        then ''No system message provided.'' else strip (the system_message)) @ nl
     @ ''</SYSTEM_MESSAGE>'' @ nl @ nl
     @ ''<USER_INSTRUCTIONS>'' @ nl
     @ (if user_instructions = None \<or> user_instructions = Some []
        then ''No user instructions provided.'' else strip (the user_instructions)) @ nl
     @ ''</USER_INSTRUCTIONS>'' @ nl @ nl
     @ ''<REPOSITORY_CONTENTS>'' @ nl
     @ join nl (concat (map directory_parts repo_summary) @ [''</REPOSITORY_CONTENTS>''])
   \<and> trimmed s (strip s)"
proof
  have m: "message_or m fb = (if m = None \<or> m = Some [] then fb else strip (the m))" for m fb
    by (cases m) (simp_all add: message_or_def)
  show "format_prompt_xml repo_summary directory_tree system_message user_instructions =
     ''DIRECTORY TREE:'' @ nl @ directory_tree @ nl @ nl
     @ ''<SYSTEM_MESSAGE>'' @ nl
     @ (if system_message = None \<or> system_message = Some []
        then ''No system message provided.'' else strip (the system_message)) @ nl
     @ ''</SYSTEM_MESSAGE>'' @ nl @ nl
     @ ''<USER_INSTRUCTIONS>'' @ nl
     @ (if user_instructions = None \<or> user_instructions = Some []
        then ''No user instructions provided.'' else strip (the user_instructions)) @ nl
     @ ''</USER_INSTRUCTIONS>'' @ nl @ nl
     @ ''<REPOSITORY_CONTENTS>'' @ nl
     @ join nl (concat (map directory_parts repo_summary) @ [''</REPOSITORY_CONTENTS>''])"
    unfolding format_prompt_xml_def prompt_parts_def m
    by (simp only: append_Cons append_Nil join_Cons list.distinct not_False_eq_True
          append_is_Nil_conv simp_thms append_assoc)
  show "trimmed s (strip s)" by (rule strip_trimmed)
qed

theorem format_prompt_xml_messages_witness:
  "format_prompt_xml [] ''t'' None (Some ''  hi there '' ) =
     ''DIRECTORY TREE:'' @ nl @ ''t'' @ nl @ nl
     @ ''<SYSTEM_MESSAGE>'' @ nl @ ''No system message provided.'' @ nl
     @ ''</SYSTEM_MESSAGE>'' @ nl @ nl
     @ ''<USER_INSTRUCTIONS>'' @ nl @ ''hi there'' @ nl
     @ ''</USER_INSTRUCTIONS>'' @ nl @ nl
     @ ''<REPOSITORY_CONTENTS>'' @ nl @ ''</REPOSITORY_CONTENTS>''"
  using format_prompt_xml_messages[of "[]" "''t''" None "Some ''  hi there ''" "[]"]
  by (simp add: strip_def is_space_def)

lemma readlines_Nil: "readlines s = [] \<longleftrightarrow> s = []"
proof -
  have "lines_from cur s = [] \<longleftrightarrow> cur = [] \<and> s = []" for cur
    by (induction s arbitrary: cur) auto
  then show ?thesis by (simp add: readlines_def)
qed



section \<open>Properties of the Repository Walker\<close>

lemma file_loop_ok:
  "snd (file_loop c p fs acc) = Inr r \<Longrightarrow>
   file_loop c p fs acc =
     (concat (map (file_events c p) fs),
      Inr (acc @ map (summary_of c) (filter (\<lambda>entry. eligible c (fst entry)) fs)))"
proof (induction fs arbitrary: acc)
  case Nil
  then show ?case by simp
next
  case (Cons a fs)
  obtain filename f where a: "a = (filename, f)" by (cases a)
  show ?case
  proof (cases "eligible c filename")
    case False
    then show ?thesis using Cons a by (simp add: eligible_def file_events_def)
  next
    case True
    show ?thesis
    proof (cases "st_size f")
      case (Inl e)
      then show ?thesis using Cons.prems a True by (simp add: eligible_def)
    next
      case (Inr size_bytes)
      show ?thesis
      proof (cases "int size_bytes > max_file_size_bytes c")
        case big: True
        let ?acc = "acc @ [summary_of c (filename, f)]"
        have s: "summary_of c (filename, f) =
                   \<lparr>name = filename,
                    summary = ''File size ('' @ str_nat size_bytes
                               @ '' bytes) exceeds limit; skipping content.''\<rparr>"
          using Inr big by (simp add: summary_of_def)
        have step: "file_loop c p (a # fs) acc =
                      after [Getsize (path_join p filename)] (file_loop c p fs ?acc)"
          using a True Inr big s by (simp add: eligible_def Let_def)
        then have "snd (file_loop c p fs ?acc) = Inr r"
          using Cons.prems by (simp add: after_def)
        from Cons.IH[OF this] show ?thesis
          using step a True Inr big by (simp add: after_def file_events_def)
      next
        case small: False
        let ?acc = "acc @ [summary_of c (filename, f)]"
        have s: "summary_of c (filename, f) =
                   \<lparr>name = filename,
                    summary = summarize_text_file f (max_summary_lines c)\<rparr>"
          using Inr small by (simp add: summary_of_def)
        have step: "file_loop c p (a # fs) acc =
                      after [Getsize (path_join p filename), Open (path_join p filename)]
                        (file_loop c p fs ?acc)"
          using a True Inr small s by (simp add: eligible_def Let_def)
        then have "snd (file_loop c p fs ?acc) = Inr r"
          using Cons.prems by (simp add: after_def)
        from Cons.IH[OF this] show ?thesis
          using step a True Inr small by (simp add: after_def file_events_def)
      qed
    qed
  qed
qed

lemma io_seq_all_ok:
  "\<forall>r \<in> set rs. \<exists>xs. snd r = Inr xs \<Longrightarrow>
   io_seq rs = (concat (map fst rs), Inr (concat (map (\<lambda>r. projr (snd r)) rs)))"
proof (induction rs)
  case Nil
  then show ?case by simp
next
  case (Cons r rs)
  then obtain evs xs where r: "r = (evs, Inr xs)" by (cases r) auto
  from Cons have "io_seq rs = (concat (map fst rs), Inr (concat (map (\<lambda>r. projr (snd r)) rs)))"
    by simp
  then show ?case using r by simp
qed

lemma io_seq_Inr_D:
  "snd (io_seq rs) = Inr ys \<Longrightarrow> r \<in> set rs \<Longrightarrow> \<exists>xs. snd r = Inr xs"
proof (induction rs arbitrary: ys)
  case Nil
  then show ?case by simp
next
  case (Cons a rs)
  obtain evs res where a: "a = (evs, res)" by (cases a)
  show ?case
  proof (cases res)
    case (Inl e)
    then show ?thesis using Cons.prems a by simp
  next
    case (Inr xs)
    obtain evs' res' where rs: "io_seq rs = (evs', res')" by (cases "io_seq rs")
    show ?thesis
    proof (cases res')
      case (Inl e)
      then show ?thesis using Cons.prems a Inr rs by simp
    next
      case inr: (Inr zs)
      then have "snd (io_seq rs) = Inr zs" using rs by simp
      from Cons.IH[OF this] show ?thesis using Cons.prems(2) a Inr by auto
    qed
  qed
qed


lemma concat_map_concat:
  "concat (map f (concat xss)) = concat (map (\<lambda>xs. concat (map f xs)) xss)"
  by (induction xss) simp_all

lemma map_filter_concat:
  "map f (filter P (concat xss)) = concat (map (\<lambda>xs. map f (filter P xs)) xss)"
  by (induction xss) simp_all

lemma visited_dirs_Dir:
  "visited_dirs c p comps (Dir es) =
     (p, comps, es) #
     concat (map (\<lambda>x. visited_dirs c (path_join p (fst x)) (comps @ [fst x]) (snd x))
               (filter (\<lambda>x. is_dir (snd x) \<and> fst x \<notin> ignored_dirs c) es))"
  by (simp add: case_prod_unfold)

lemma os_walk_Dir:
  "os_walk c p comps (Dir es) =
     io_seq
       ((case file_loop c p (nondirs es) [] of
           (evs, Inl e) \<Rightarrow> (Scandir p # evs, Inl e)
         | (evs, Inr file_summaries) \<Rightarrow>
             (Scandir p # evs,
              Inr (if file_summaries \<noteq> []
                   then [\<lparr>directory = rel_dir_of comps, files = file_summaries\<rparr>] else []))) #
        map (\<lambda>x. os_walk c (path_join p (fst x)) (comps @ [fst x]) (snd x))
          (filter (\<lambda>x. is_dir (snd x) \<and> fst x \<notin> ignored_dirs c) es))"
  unfolding rel_dir_of_def
  by (cases "relpath comps = ''.''") (simp_all add: Let_def case_prod_unfold conj_commute)

lemma os_walk_ok:
  "snd (os_walk c p comps n) = Inr ents \<Longrightarrow>
   os_walk c p comps n =
     (concat (map (dir_events c) (visited_dirs c p comps n)),
      Inr (map (dir_entry_of c) (filter (has_eligible c) (visited_dirs c p comps n))))"
proof (induction n arbitrary: p comps ents rule: fsnode.induct)
  case (File f)
  then show ?case by (simp add: dir_events_def has_eligible_def eligible_files_def)
next
  case (DirDenied e)
  then show ?case by (simp add: dir_events_def has_eligible_def eligible_files_def)
next
  case (Dir es)
  define dirs where "dirs = filter (\<lambda>x. is_dir (snd x) \<and> fst x \<notin> ignored_dirs c) es"
  define sub where "sub = (\<lambda>x. os_walk c (path_join p (fst x)) (comps @ [fst x]) (snd x))"
  define vis where "vis = (\<lambda>x. visited_dirs c (path_join p (fst x)) (comps @ [fst x]) (snd x))"
  define visit where "visit =
       (case file_loop c p (nondirs es) [] of
           (evs, Inl e) \<Rightarrow> (Scandir p # evs, Inl e)
         | (evs, Inr file_summaries) \<Rightarrow>
             (Scandir p # evs,
              Inr (if file_summaries \<noteq> []
                   then [\<lparr>directory = rel_dir_of comps, files = file_summaries\<rparr>] else [])))"
  have unf: "os_walk c p comps (Dir es) = io_seq (visit # map sub dirs)"
    unfolding visit_def sub_def dirs_def by (rule os_walk_Dir)
  have ok: "\<exists>xs. snd r = Inr xs" if "r \<in> set (visit # map sub dirs)" for r
    using io_seq_Inr_D[OF _ that] Dir.prems unf by simp
  have "\<exists>xs. snd visit = Inr xs" using ok by simp
  then obtain fsums where fl: "snd (file_loop c p (nondirs es) []) = Inr fsums"
    unfolding visit_def by (auto split: prod.splits sum.splits)
  have visit_eq: "visit =
      (dir_events c (p, comps, es),
       Inr (map (dir_entry_of c) (filter (has_eligible c) [(p, comps, es)])))"
    unfolding visit_def file_loop_ok[OF fl]
    by (simp add: dir_events_def dir_entry_of_def has_eligible_def eligible_files_def)
  have sub_eq: "sub x =
      (concat (map (dir_events c) (vis x)),
       Inr (map (dir_entry_of c) (filter (has_eligible c) (vis x))))" if x: "x \<in> set dirs" for x
  proof -
    from x have "sub x \<in> set (visit # map sub dirs)" by simp
    then obtain xs where xs: "snd (sub x) = Inr xs" using ok by blast
    from x have mem: "x \<in> set es" by (simp add: dirs_def)
    have "snd x \<in> Basic_BNFs.snds x" by (cases x) simp
    from Dir.IH[OF mem this, of "path_join p (fst x)" "comps @ [fst x]" xs] xs
    show ?thesis by (simp add: sub_def vis_def)
  qed
  have all: "io_seq (visit # map sub dirs) =
      (concat (map fst (visit # map sub dirs)),
       Inr (concat (map (\<lambda>r. projr (snd r)) (visit # map sub dirs))))"
    by (rule io_seq_all_ok) (use ok in blast)
  have v: "visited_dirs c p comps (Dir es) = (p, comps, es) # concat (map vis dirs)"
    unfolding vis_def dirs_def by (rule visited_dirs_Dir)
  show ?case
    unfolding unf all v
    by (simp add: visit_eq concat_map_concat map_filter_concat comp_def sub_eq cong: map_cong)
qed

lemma file_loop_unread:
  "\<forall>x \<in> set fs. unread c (fst x) (snd x) (g (fst x) (snd x)) \<Longrightarrow>
   file_loop c p (map (\<lambda>x. (fst x, g (fst x) (snd x))) fs) acc = file_loop c p fs acc"
proof (induction fs arbitrary: acc)
  case Nil
  then show ?case by simp
next
  case (Cons x fs)
  obtain a f where x: "x = (a, f)" by (cases x)
  from Cons.prems have u: "unread c a f (g a f)" and
    rest: "\<forall>x \<in> set fs. unread c (fst x) (snd x) (g (fst x) (snd x))"
    using x by simp_all
  note IH = Cons.IH[OF rest]
  show ?case
  proof (cases "eligible c a")
    case False
    then show ?thesis using x IH by (simp add: eligible_def)
  next
    case True
    show ?thesis
    proof (cases "g a f = f")
      case True
      then show ?thesis using x IH by (simp add: Let_def split: sum.splits)
    next
      case False
      with u True have s: "st_size (g a f) = st_size f"
        and b: "(case st_size f of Inr size_bytes \<Rightarrow> int size_bytes > max_file_size_bytes c
                 | Inl e \<Rightarrow> True)"
        by (auto simp: unread_def)
      show ?thesis using x IH s b by (cases "st_size f") (simp_all add: Let_def)
    qed
  qed
qed

lemma nondirs_map_files:
  "nondirs (map (\<lambda>(a, n). (a, case n of File f \<Rightarrow> File (g a f) | _ \<Rightarrow> map_files g n)) es)
     = map (\<lambda>x. (fst x, g (fst x) (snd x))) (nondirs es)"
proof (induction es)
  case Nil
  then show ?case by simp
next
  case (Cons x es)
  obtain a n where x: "x = (a, n)" by (cases x)
  show ?case using Cons x by (cases n) simp_all
qed

lemma is_dir_map_files [simp]: "is_dir (map_files g n) = is_dir n"
  by (cases n) simp_all

lemma set_nondirs: "(a, f) \<in> set (nondirs es) \<longleftrightarrow> (a, File f) \<in> set es"
proof (induction es)
  case Nil
  then show ?case by simp
next
  case (Cons x es)
  obtain b n where x: "x = (b, n)" by (cases x)
  show ?case using Cons x by (cases n) auto
qed

lemma os_walk_map_files:
  "(\<And>a f. unread c a f (g a f)) \<Longrightarrow>
   os_walk c p comps (map_files g n) = os_walk c p comps n"
proof (induction n arbitrary: p comps rule: fsnode.induct)
  case (File f)
  then show ?case by simp
next
  case (DirDenied e)
  then show ?case by simp
next
  case (Dir es)
  let ?h = "\<lambda>(a, n). (a, case n of File f \<Rightarrow> File (g a f) | _ \<Rightarrow> map_files g n)"
  let ?keep = "\<lambda>x. is_dir (snd x) \<and> fst x \<notin> ignored_dirs c"
  have fl: "file_loop c p (nondirs (map ?h es)) [] = file_loop c p (nondirs es) []"
    unfolding nondirs_map_files by (rule file_loop_unread) (simp add: Dir.prems)
  have keep: "?keep (?h x) = ?keep x" for x
    by (cases x; cases "snd x") auto
  have fm: "filter ?keep (map ?h es) = map ?h (filter ?keep es)"
    by (simp add: filter_map comp_def keep)
  have sub: "os_walk c (path_join p (fst (?h x))) (comps @ [fst (?h x)]) (snd (?h x))
           = os_walk c (path_join p (fst x)) (comps @ [fst x]) (snd x)"
    if x: "x \<in> set (filter ?keep es)" for x
  proof -
    obtain a n where xn: "x = (a, n)" by (cases x)
    with x have mem: "(a, n) \<in> set es" and d: "is_dir n" by auto
    have "n \<in> Basic_BNFs.snds (a, n)" by simp
    from Dir.IH[OF mem this Dir.prems, of "path_join p a" "comps @ [a]"] d
    show ?thesis using xn by (cases n) simp_all
  qed
  have subs: "map (\<lambda>x. os_walk c (path_join p (fst x)) (comps @ [fst x]) (snd x))
                (map ?h (filter ?keep es))
            = map (\<lambda>x. os_walk c (path_join p (fst x)) (comps @ [fst x]) (snd x))
                (filter ?keep es)"
    unfolding map_map comp_def by (rule map_cong[OF refl], erule sub)
  show ?case
    unfolding map_files.simps os_walk_Dir fl fm subs ..
qed

lemma unread_oversized: "unread c a f (rewrite_oversized c g a f)"
  by (cases "st_size f") (auto simp: unread_def rewrite_oversized_def)

lemma unread_ignored: "unread c a f (rewrite_ignored c g a f)"
  by (auto simp: unread_def rewrite_ignored_def)



lemma str_nat_digit: "n < 10 \<Longrightarrow> str_nat n = [''0123456789'' ! n]"
  by (subst str_nat.simps) simp

lemma str_nat_more:
  "10 \<le> n \<Longrightarrow> str_nat n = str_nat (n div 10) @ [''0123456789'' ! (n mod 10)]"
  by (subst str_nat.simps) simp

text \<open>\<open>str_nat n\<close> is a decimal numeral of \<open>n\<close>.\<close>

lemma digit_cases: "d < 10 \<Longrightarrow> d \<in> {0, 1, 2, 3, 4, 5, 6, 7, 8, 9::nat}"
  by auto

lemma digit_value: "d < 10 \<Longrightarrow> (of_char (''0123456789'' ! d) :: nat) - 48 = d"
  by (drule digit_cases) auto

lemma digit_char: "d < 10 \<Longrightarrow> ''0123456789'' ! d \<in> set ''0123456789''"
  by (drule digit_cases) auto

lemma str_nat_decimal:
  "decimal_value (str_nat n) = n \<and> set (str_nat n) \<subseteq> set ''0123456789'' \<and> str_nat n \<noteq> []"
proof (induction n rule: str_nat.induct)
  case (1 n)
  show ?case
  proof (cases "n < 10")
    case True
    then show ?thesis
      using digit_value[of n] digit_char[of n]
      by (simp add: str_nat_digit decimal_value_def)
  next
    case False
    with 1 have IH: "decimal_value (str_nat (n div 10)) = n div 10"
      "set (str_nat (n div 10)) \<subseteq> set ''0123456789''" by simp_all
    have m: "n mod 10 < 10" by simp
    have s: "str_nat n = str_nat (n div 10) @ [''0123456789'' ! (n mod 10)]"
      using False by (simp add: str_nat_more)
    have "decimal_value (str_nat n) = 10 * (n div 10) + n mod 10"
      unfolding s using IH(1) digit_value[OF m] by (simp add: decimal_value_def)
    moreover have "set (str_nat n) \<subseteq> set ''0123456789''"
      unfolding s using IH(2) digit_char[OF m] by simp
    ultimately show ?thesis using s by simp
  qed
qed

lemmas eval_defs =
  create_repo_summary_def generator_config_def repoforge_default_config_def
  IGNORED_DIRS_def IGNORED_EXTENSIONS_def splitext_def rfind_def lower_def lower_char_def
  path_join_def relpath_def after_def Let_def text_file_def summarize_text_file_def
  readlines_def rstrip_nl_def nl_def str_nat_digit str_nat_more

lemma walk_listing_a:
  "create_repo_summary generator_config ''repo'' (Dir listing_a) =
     ([Scandir ''repo'', Getsize ''repo/big.bin''],
      Inr [\<lparr>directory = [],
            files = [\<lparr>name = ''big.bin'',
                      summary = ''File size (100001 bytes) exceeds limit; skipping content.''\<rparr>]\<rparr>])"
  by (simp add: eval_defs listing_a_def big_file_def)


lemma visited_listing_a:
  "visited_dirs generator_config ''repo'' [] (Dir listing_a) = [(''repo'', [], listing_a)]"
  by (simp add: listing_a_def)

lemma walk_entries:
  assumes "create_repo_summary c root_dir root = (evs, Inr repo_summary)"
  shows "repo_summary =
           map (dir_entry_of c) (filter (has_eligible c) (visited_dirs c root_dir [] root))"
    and "evs = concat (map (dir_events c) (visited_dirs c root_dir [] root))"
proof -
  have "snd (os_walk c root_dir [] root) = Inr repo_summary"
    using assms by (simp add: create_repo_summary_def)
  from os_walk_ok[OF this] assms
  show "repo_summary =
           map (dir_entry_of c) (filter (has_eligible c) (visited_dirs c root_dir [] root))"
    and "evs = concat (map (dir_events c) (visited_dirs c root_dir [] root))"
    by (simp_all add: create_repo_summary_def)
qed

lemma eligible_file_recorded:
  assumes "create_repo_summary c root_dir root = (evs, Inr repo_summary)"
      and "v \<in> set (visited_dirs c root_dir [] root)"
      and "(filename, f) \<in> set (nondirs (snd (snd v)))"
      and "eligible c filename"
  shows "dir_entry_of c v \<in> set repo_summary"
    and "summary_of c (filename, f) \<in> set (files (dir_entry_of c v))"
proof -
  have e: "(filename, f) \<in> set (eligible_files c (snd (snd v)))"
    using assms(3,4) by (simp add: eligible_files_def)
  then have "has_eligible c v" by (auto simp: has_eligible_def)
  then show "dir_entry_of c v \<in> set repo_summary"
    unfolding walk_entries(1)[OF assms(1)] using assms(2) by simp
  show "summary_of c (filename, f) \<in> set (files (dir_entry_of c v))"
    using e by (simp add: dir_entry_of_def)
qed

text \<open>
  C2. When the walk returns, every file of a visited directory that has no ignored
  extension and whose size exceeds the cap is recorded, in the entry of its directory, with
  the summary \<open>File size (N bytes) exceeds limit; skipping content.\<close>, \<open>N\<close> being the
  decimal size. The system calls of the walk are those of the visited directories and
  their files, and for such a file they are the one \<open>getsize\<close>: it is never opened. What
  the files above the cap contain never matters: changing it changes neither the result
  nor the calls of the walk.
\<close>

theorem oversized_file_placeholder:
  assumes "create_repo_summary c root_dir root = (evs, Inr repo_summary)"
      and "(current_path, comps, es) \<in> set (visited_dirs c root_dir [] root)"
      and "(filename, f) \<in> set (nondirs es)"
      and "lower (snd (splitext filename)) \<notin> ignored_extensions c"
      and "st_size f = Inr size_bytes"
      and "int size_bytes > max_file_size_bytes c"
  shows "(\<exists>entry \<in> set repo_summary.
            directory entry = rel_dir_of comps
            \<and> \<lparr>name = filename,
                summary = ''File size ('' @ str_nat size_bytes
                           @ '' bytes) exceeds limit; skipping content.''\<rparr> \<in> set (files entry))
       \<and> evs = concat (map (dir_events c) (visited_dirs c root_dir [] root))
       \<and> file_events c current_path (filename, f) = [Getsize (path_join current_path filename)]
       \<and> (\<forall>g. create_repo_summary c root_dir (map_files (rewrite_oversized c g) root)
                = create_repo_summary c root_dir root)"
proof (intro conjI allI)
  have el: "eligible c filename" using assms(4) by (simp add: eligible_def)
  have mem: "(filename, f) \<in> set (nondirs (snd (snd (current_path, comps, es))))"
    using assms(3) by simp
  have s: "summary_of c (filename, f) =
             \<lparr>name = filename,
              summary = ''File size ('' @ str_nat size_bytes
                         @ '' bytes) exceeds limit; skipping content.''\<rparr>"
    using assms(5,6) by (simp add: summary_of_def)
  have "directory (dir_entry_of c (current_path, comps, es)) = rel_dir_of comps"
    by (simp add: dir_entry_of_def)
  with eligible_file_recorded[OF assms(1,2) mem el] s
  show "\<exists>entry \<in> set repo_summary.
            directory entry = rel_dir_of comps
            \<and> \<lparr>name = filename,
                summary = ''File size ('' @ str_nat size_bytes
                           @ '' bytes) exceeds limit; skipping content.''\<rparr> \<in> set (files entry)"
    by metis
  show "evs = concat (map (dir_events c) (visited_dirs c root_dir [] root))"
    by (rule walk_entries(2)[OF assms(1)])
  show "file_events c current_path (filename, f) = [Getsize (path_join current_path filename)]"
    using el assms(5,6) by (simp add: file_events_def)
  show "create_repo_summary c root_dir (map_files (rewrite_oversized c g) root)
          = create_repo_summary c root_dir root" for g
    unfolding create_repo_summary_def by (rule os_walk_map_files) (rule unread_oversized)
qed

theorem oversized_file_placeholder_witness:
  "create_repo_summary generator_config ''repo'' (Dir listing_a) =
     ([Scandir ''repo'', Getsize ''repo/big.bin''],
      Inr [\<lparr>directory = [],
            files = [\<lparr>name = ''big.bin'',
                      summary = ''File size (100001 bytes) exceeds limit; skipping content.''\<rparr>]\<rparr>])
   \<and> file_events generator_config ''repo'' (''big.bin'', big_file) = [Getsize ''repo/big.bin'']
   \<and> (\<forall>g. create_repo_summary generator_config ''repo''
              (map_files (rewrite_oversized generator_config g) (Dir listing_a))
            = create_repo_summary generator_config ''repo'' (Dir listing_a))"
proof -
  have 1: "(''repo'', [], listing_a)
             \<in> set (visited_dirs generator_config ''repo'' [] (Dir listing_a))"
    by (simp add: visited_listing_a)
  have 2: "(''big.bin'', big_file) \<in> set (nondirs listing_a)"
    by (simp add: listing_a_def)
  have 3: "lower (snd (splitext ''big.bin'')) \<notin> ignored_extensions generator_config"
    by (simp add: eval_defs)
  have 4: "st_size big_file = Inr 100001"
    by (simp add: big_file_def)
  have 5: "int 100001 > max_file_size_bytes generator_config"
    by (simp add: generator_config_def)
  have p: "path_join ''repo'' ''big.bin'' = ''repo/big.bin''"
    by (simp add: path_join_def)
  show ?thesis
    using oversized_file_placeholder[OF walk_listing_a 1 2 3 4 5] walk_listing_a p by simp
qed






text \<open>
  What the walker does with a file whose lower-cased extension is in the
  ignored-extension set: the file has no record in the entry of its directory, no system
  call is made for it (its size is never asked for, it is never opened), and changing the
  file in any way changes neither the result nor the calls of the walk. If every entry of
  the set is in lower case, an extension that matches an entry without regard to case has
  its lower-cased form in the set.
\<close>

theorem ignored_extension_dropped:
  assumes "create_repo_summary c root_dir root = (evs, Inr repo_summary)"
      and "(current_path, comps, es) \<in> set (visited_dirs c root_dir [] root)"
      and "(filename, f) \<in> set (nondirs es)"
      and "lower (snd (splitext filename)) \<in> ignored_extensions c"
  shows "repo_summary =
           map (dir_entry_of c) (filter (has_eligible c) (visited_dirs c root_dir [] root))
       \<and> filename \<notin> name ` set (files (dir_entry_of c (current_path, comps, es)))
       \<and> evs = concat (map (dir_events c) (visited_dirs c root_dir [] root))
       \<and> file_events c current_path (filename, f) = []
       \<and> (\<forall>g. create_repo_summary c root_dir (map_files (rewrite_ignored c g) root)
                = create_repo_summary c root_dir root)
       \<and> ((\<forall>e \<in> ignored_extensions c. lower e = e) \<longrightarrow>
            (\<forall>ext. (\<exists>e \<in> ignored_extensions c. lower e = lower ext)
                     \<longleftrightarrow> lower ext \<in> ignored_extensions c))"
proof (intro conjI allI impI)
  show "repo_summary =
           map (dir_entry_of c) (filter (has_eligible c) (visited_dirs c root_dir [] root))"
    by (rule walk_entries(1)[OF assms(1)])
  show "evs = concat (map (dir_events c) (visited_dirs c root_dir [] root))"
    by (rule walk_entries(2)[OF assms(1)])
  show "filename \<notin> name ` set (files (dir_entry_of c (current_path, comps, es)))"
    using assms(4)
    by (auto simp: dir_entry_of_def eligible_files_def eligible_def summary_of_def)
  show "file_events c current_path (filename, f) = []"
    using assms(4) by (simp add: file_events_def eligible_def)
  show "create_repo_summary c root_dir (map_files (rewrite_ignored c g) root)
          = create_repo_summary c root_dir root" for g
    unfolding create_repo_summary_def by (rule os_walk_map_files) (rule unread_ignored)
next
  fix ext
  assume "\<forall>e \<in> ignored_extensions c. lower e = e"
  then show "(\<exists>e \<in> ignored_extensions c. lower e = lower ext)
               \<longleftrightarrow> lower ext \<in> ignored_extensions c"
    by metis
qed

theorem ignored_extension_dropped_witness:
  "create_repo_summary generator_config ''repo'' (Dir listing_a) =
     ([Scandir ''repo'', Getsize ''repo/big.bin''],
      Inr [\<lparr>directory = [],
            files = [\<lparr>name = ''big.bin'',
                      summary = ''File size (100001 bytes) exceeds limit; skipping content.''\<rparr>]\<rparr>])
   \<and> lower (snd (splitext ''pic.PNG'')) = ''.png''
   \<and> ''pic.PNG'' \<notin> name ` set (files (dir_entry_of generator_config (''repo'', [], listing_a)))
   \<and> file_events generator_config ''repo'' (''pic.PNG'', text_file ''x'') = []
   \<and> (\<forall>g. create_repo_summary generator_config ''repo''
              (map_files (rewrite_ignored generator_config g) (Dir listing_a))
            = create_repo_summary generator_config ''repo'' (Dir listing_a))"
proof -
  have 1: "(''repo'', [], listing_a)
             \<in> set (visited_dirs generator_config ''repo'' [] (Dir listing_a))"
    by (simp add: visited_listing_a)
  have 2: "(''pic.PNG'', text_file ''x'') \<in> set (nondirs listing_a)"
    by (simp add: listing_a_def)
  have l: "lower (snd (splitext ''pic.PNG'')) = ''.png''"
    by (simp add: eval_defs)
  have 3: "lower (snd (splitext ''pic.PNG'')) \<in> ignored_extensions generator_config"
    unfolding l by (simp add: eval_defs)
  show ?thesis
    using ignored_extension_dropped[OF walk_listing_a 1 2 3] walk_listing_a l by simp
qed

text \<open>
  The entries of the set are compared as they are given, so an entry with an upper-case
  letter is never equal to a lower-cased extension.
\<close>

lemma lower_char_idem: "lower_char (lower_char ch) = lower_char ch"
  by (simp add: lower_char_def split: if_splits)

lemma lower_idem: "lower (lower s) = lower s"
  by (simp add: lower_def lower_char_idem)

lemma upper_case_entry_matches_nothing: "lower e \<noteq> e \<Longrightarrow> lower ext \<noteq> e"
  using lower_idem[of ext] by auto

text \<open>
  C6. The comparison of the extension with the ignored-extension set is not
  case-insensitive: only the extension of the file is lower-cased. With the set
  \<open>{.PNG}\<close> the file \<open>pic.PNG\<close>, whose extension is equal to the entry, is not dropped:
  its size is asked for, it is opened, and it is recorded. With the entry in lower case the
  same file is dropped without any call.
\<close>

theorem upper_case_entry_not_dropped:
  "''.PNG'' \<in> ignored_extensions upper_config
   \<and> snd (splitext ''pic.PNG'') = ''.PNG''
   \<and> lower ''.PNG'' = lower (snd (splitext ''pic.PNG''))
   \<and> create_repo_summary upper_config ''repo'' (Dir [(''pic.PNG'', File (text_file ''x''))]) =
       ([Scandir ''repo'', Getsize ''repo/pic.PNG'', Open ''repo/pic.PNG''],
        Inr [\<lparr>directory = [], files = [\<lparr>name = ''pic.PNG'', summary = ''x''\<rparr>]\<rparr>])
   \<and> create_repo_summary (upper_config\<lparr>ignored_extensions := {''.png''}\<rparr>) ''repo''
         (Dir [(''pic.PNG'', File (text_file ''x''))]) =
       ([Scandir ''repo''], Inr [])"
  by (simp add: upper_config_def eval_defs)

section \<open>Ignored names, the tree and the walk\<close>

lemma is_dir_prune_by [simp]: "is_dir (prune_by rm n) = is_dir n"
  by (cases n) simp_all

lemma prune_by_Dir:
  "prune_by rm (Dir es) =
     Dir (map (\<lambda>x. (fst x, prune_by rm (snd x))) (filter (\<lambda>x. \<not> rm (fst x) (snd x)) es))"
  by (simp add: case_prod_unfold)

lemma names_after_prune:
  "(\<And>a n. rm a n \<Longrightarrow> a \<in> ign) \<Longrightarrow>
   filter (\<lambda>e. e \<notin> ign) (map fst (filter (\<lambda>x. \<not> rm (fst x) (snd x)) es))
     = filter (\<lambda>e. e \<notin> ign) (map fst es)"
  by (induction es) auto

lemma entries_after_prune:
  assumes "\<And>a n. rm a n \<Longrightarrow> a \<in> ign"
  shows "filter (\<lambda>e. e \<notin> ign)
           (sort (map fst (map (\<lambda>x. (fst x, h (snd x))) (filter (\<lambda>x. \<not> rm (fst x) (snd x)) es))))
       = filter (\<lambda>e. e \<notin> ign) (sort (map fst es))"
proof -
  have m: "map fst (map (\<lambda>x. (fst x, h (snd x))) (filter (\<lambda>x. \<not> rm (fst x) (snd x)) es))
          = map fst (filter (\<lambda>x. \<not> rm (fst x) (snd x)) es)"
    by (simp add: comp_def)
  have n: "filter (\<lambda>e. e \<notin> ign) (map fst (filter (\<lambda>x. \<not> rm (fst x) (snd x)) es))
          = filter (\<lambda>e. e \<notin> ign) (map fst es)"
    by (rule names_after_prune) (rule assms)
  show ?thesis unfolding m filter_sort n ..
qed

lemma lookup_after_prune:
  "(\<And>a n. rm a n \<Longrightarrow> a \<in> ign) \<Longrightarrow> entry \<notin> ign \<Longrightarrow>
   map_of (map (\<lambda>x. (fst x, h (snd x))) (filter (\<lambda>x. \<not> rm (fst x) (snd x)) es)) entry
     = map_option h (map_of es entry)"
  by (induction es) auto


lemma enumerate_mem: "(i, e) \<in> set (enumerate k xs) \<Longrightarrow> e \<in> set xs"
  by (auto simp: in_set_enumerate_eq)

lemma walk_directory_prune_by:
  assumes "\<And>a n. rm a n \<Longrightarrow> a \<in> ignored_dirs c"
  shows "walk_directory c (prune_by rm n) prefix = walk_directory c n prefix"
proof (induction n arbitrary: prefix rule: fsnode.induct)
  case (File f)
  then show ?case by simp
next
  case (DirDenied e)
  then show ?case by simp
next
  case (Dir es)
  have ent: "filter (\<lambda>e. e \<notin> ignored_dirs c)
           (sort (map fst (map (\<lambda>x. (fst x, prune_by rm (snd x)))
                             (filter (\<lambda>x. \<not> rm (fst x) (snd x)) es))))
       = filter (\<lambda>e. e \<notin> ignored_dirs c) (sort (map fst es))"
    by (rule entries_after_prune) (rule assms)
  have look: "map_of (map (\<lambda>x. (fst x, prune_by rm (snd x)))
                        (filter (\<lambda>x. \<not> rm (fst x) (snd x)) es)) entry
                = map_option (prune_by rm) (map_of es entry)"
    if "entry \<notin> ignored_dirs c" for entry
    by (rule lookup_after_prune) (use assms that in auto)
  have IH': "walk_directory c (prune_by rm m) pre = walk_directory c m pre"
    if "map_of es entry = Some m" for entry m pre
  proof -
    from that have mem: "(entry, m) \<in> set es" by (rule map_of_SomeD)
    have "m \<in> Basic_BNFs.snds (entry, m)" by simp
    from Dir.IH[OF mem this] show ?thesis .
  qed
  show ?case
    unfolding prune_by_Dir walk_directory.simps Let_def ent
    apply (rule arg_cong[where f = collect])
    apply (rule map_cong[OF refl])
    subgoal for x
      by (cases x) (auto simp: look IH' dest!: enumerate_mem split: option.splits)
    done
qed


lemma nondirs_prune_by:
  assumes "\<And>a n. rm a n \<Longrightarrow> is_dir n"
  shows "nondirs (map (\<lambda>x. (fst x, prune_by rm (snd x))) (filter (\<lambda>x. \<not> rm (fst x) (snd x)) es))
           = nondirs es"
proof -
  have nf: "\<not> rm a (File f)" for a f
    using assms[of a "File f"] by auto
  show ?thesis
  proof (induction es)
    case Nil
    then show ?case by simp
  next
    case (Cons x es)
    obtain a n where x: "x = (a, n)" by (cases x)
    show ?case using Cons x nf by (cases n) auto
  qed
qed

lemma os_walk_prune_by:
  assumes "\<And>a n. rm a n \<Longrightarrow> is_dir n \<and> a \<in> ignored_dirs c"
  shows "os_walk c p comps (prune_by rm n) = os_walk c p comps n"
proof (induction n arbitrary: p comps rule: fsnode.induct)
  case (File f)
  then show ?case by simp
next
  case (DirDenied e)
  then show ?case by simp
next
  case (Dir es)
  let ?h = "\<lambda>x. (fst x, prune_by rm (snd x))"
  let ?keep = "\<lambda>x. is_dir (snd x) \<and> fst x \<notin> ignored_dirs c"
  let ?stay = "\<lambda>x. \<not> rm (fst x) (snd x)"
  have nd: "nondirs (map ?h (filter ?stay es)) = nondirs es"
    by (rule nondirs_prune_by) (use assms in blast)
  have "filter ?keep (filter ?stay es) = filter ?keep es"
    using assms by (induction es) auto
  then have fm: "filter ?keep (map ?h (filter ?stay es)) = map ?h (filter ?keep es)"
    by (simp add: filter_map comp_def)
  have sub: "os_walk c (path_join p (fst (?h x))) (comps @ [fst (?h x)]) (snd (?h x))
           = os_walk c (path_join p (fst x)) (comps @ [fst x]) (snd x)"
    if x: "x \<in> set (filter ?keep es)" for x
  proof -
    obtain a m where xn: "x = (a, m)" by (cases x)
    with x have mem: "(a, m) \<in> set es" by auto
    have "m \<in> Basic_BNFs.snds (a, m)" by simp
    from Dir.IH[OF mem this, of "path_join p a" "comps @ [a]"]
    show ?thesis using xn by simp
  qed
  have subs: "map (\<lambda>x. os_walk c (path_join p (fst x)) (comps @ [fst x]) (snd x))
                (map ?h (filter ?keep es))
            = map (\<lambda>x. os_walk c (path_join p (fst x)) (comps @ [fst x]) (snd x))
                (filter ?keep es)"
    unfolding map_map comp_def by (rule map_cong[OF refl], erule sub)
  show ?case
    unfolding prune_by_Dir os_walk_Dir nd fm subs ..
qed

lemma prune_by_clean:
  assumes "\<And>a n. rm a (prune_by rm n) = rm a n"
  shows "\<not> has_entry rm (prune_by rm n)"
proof (induction n rule: fsnode.induct)
  case (File f)
  then show ?case by simp
next
  case (DirDenied e)
  then show ?case by simp
next
  case (Dir es)
  have "\<not> (rm (fst x) (prune_by rm (snd x)) \<or> has_entry rm (prune_by rm (snd x)))"
    if "x \<in> set es" "\<not> rm (fst x) (snd x)" for x
  proof -
    obtain a m where xn: "x = (a, m)" by (cases x)
    have "m \<in> Basic_BNFs.snds (a, m)" by simp
    from Dir.IH[OF _ this] that xn assms show ?thesis by auto
  qed
  then show ?case
    unfolding prune_by_Dir by (auto simp: list_ex_iff)
qed

lemma prune_by_id: "\<not> has_entry rm n \<Longrightarrow> prune_by rm n = n"
proof (induction n rule: fsnode.induct)
  case (File f)
  then show ?case by simp
next
  case (DirDenied e)
  then show ?case by simp
next
  case (Dir es)
  have 1: "filter (\<lambda>x. \<not> rm (fst x) (snd x)) es = es"
    using Dir.prems by (auto simp: list_ex_iff filter_id_conv)
  have 2: "(fst x, prune_by rm (snd x)) = x" if "x \<in> set es" for x
  proof -
    obtain a m where xn: "x = (a, m)" by (cases x)
    have "m \<in> Basic_BNFs.snds (a, m)" by simp
    from Dir.IH[OF _ this] that xn Dir.prems show ?thesis by (auto simp: list_ex_iff)
  qed
  show ?case unfolding prune_by_Dir 1 using 2 by (simp add: map_idI)
qed

lemma visited_comps:
  "v \<in> set (visited_dirs c p0 comps0 root) \<Longrightarrow> d \<in> set (fst (snd v)) \<Longrightarrow>
   d \<in> set comps0 \<or> d \<notin> ignored_dirs c"
proof (induction root arbitrary: p0 comps0 rule: fsnode.induct)
  case (File f)
  then show ?case by auto
next
  case (DirDenied e)
  then show ?case by auto
next
  case (Dir es)
  let ?keep = "\<lambda>x. is_dir (snd x) \<and> fst x \<notin> ignored_dirs c"
  from Dir.prems(1) consider (here) "v = (p0, comps0, es)"
    | (below) x where "x \<in> set (filter ?keep es)"
        "v \<in> set (visited_dirs c (path_join p0 (fst x)) (comps0 @ [fst x]) (snd x))"
    unfolding visited_dirs_Dir by auto
  then show ?case
  proof cases
    case here
    then show ?thesis using Dir.prems(2) by simp
  next
    case below
    obtain a m where x: "x = (a, m)" by (cases x)
    with below(1) have mem: "(a, m) \<in> set es" and a: "a \<notin> ignored_dirs c" by auto
    have "m \<in> Basic_BNFs.snds (a, m)" by simp
    from Dir.IH[OF mem this _ Dir.prems(2), of "path_join p0 a" "comps0 @ [a]"] below(2) x a
    show ?thesis by auto
  qed
qed


lemmas tree_eval_defs =
  create_directory_tree_def root_basename_def basename_def normpath_def split_def
  generator_config_def repoforge_default_config_def IGNORED_DIRS_def IGNORED_EXTENSIONS_def
  splitext_def rfind_def lower_def lower_char_def Let_def text_file_def nl_def

lemma tree_example_root:
  "create_directory_tree generator_config ''/tmp/repo'' example_root
     = Inr (''repo/'' @ nl @ branch_last @ ''a.txt'')"
  by (simp add: tree_eval_defs example_root_def)

lemma walk_example_root:
  "create_repo_summary generator_config ''/tmp/repo'' example_root =
     ([Scandir ''/tmp/repo'', Getsize ''/tmp/repo/a.txt'', Open ''/tmp/repo/a.txt''],
      Inr [\<lparr>directory = [], files = [\<lparr>name = ''a.txt'', summary = ''hello''\<rparr>]\<rparr>])"
  by (simp add: eval_defs example_root_def)

lemma prune_example_root:
  "prune generator_config example_root = Dir [(''a.txt'', File (text_file (''hello'' @ nl)))]"
  by (simp add: prune_def example_root_def generator_config_def IGNORED_DIRS_def)


text \<open>
  C3. Directories whose name is in the ignored-directory set, wherever they are below the
  root, leave no trace: the walker (its result and its system calls), the tree renderer
  and the whole prompt are the same as on the directory tree from which every such
  directory has been deleted with all its descendants, whatever these are. The deletion
  leaves no such directory and changes nothing else. No directory that the walker visits
  lies in or below a directory with an ignored name.
\<close>

theorem ignored_directories_skipped:
  "create_repo_summary c root_dir (prune c root) = create_repo_summary c root_dir root
   \<and> create_directory_tree c root_dir (prune c root) = create_directory_tree c root_dir root
   \<and> generate_prompt c root_dir (map_option (prune c) r) system_message user_instructions
       = generate_prompt c root_dir r system_message user_instructions
   \<and> \<not> has_ignored_dir c (prune c root)
   \<and> (\<not> has_ignored_dir c root \<longrightarrow> prune c root = root)
   \<and> (\<forall>v \<in> set (visited_dirs c root_dir [] root). \<forall>d \<in> set (fst (snd v)). d \<notin> ignored_dirs c)"
proof -
  have w: "create_repo_summary c root_dir (prune c n) = create_repo_summary c root_dir n" for n
    unfolding create_repo_summary_def prune_def by (rule os_walk_prune_by) simp
  have t: "create_directory_tree c root_dir (prune c n) = create_directory_tree c root_dir n" for n
  proof -
    have "walk_directory c (prune c n) [] = walk_directory c n []"
      unfolding prune_def by (rule walk_directory_prune_by) simp
    then show ?thesis by (simp add: create_directory_tree_def)
  qed
  have g: "generate_prompt c root_dir (map_option (prune c) r) system_message user_instructions
             = generate_prompt c root_dir r system_message user_instructions"
  proof (cases r)
    case None
    then show ?thesis by simp
  next
    case (Some n)
    show ?thesis
    proof (cases n)
      case (File f)
      then show ?thesis using Some by (simp add: generate_prompt_def prune_def)
    next
      case (Dir es)
      obtain es' where p: "prune c (Dir es) = Dir es'"
        by (simp add: prune_def)
      have "generate_prompt c root_dir (Some (Dir es')) system_message user_instructions
              = generate_prompt c root_dir (Some (Dir es)) system_message user_instructions"
      proof -
        have tt: "create_directory_tree c root_dir (Dir es')
                    = create_directory_tree c root_dir (Dir es)"
          using t[of "Dir es"] unfolding p .
        have ww: "create_repo_summary c root_dir (Dir es')
                    = create_repo_summary c root_dir (Dir es)"
          using w[of "Dir es"] unfolding p .
        show ?thesis
          unfolding generate_prompt_def option.case fsnode.case tt ww ..
      qed
      then show ?thesis using Some Dir p by simp
    next
      case (DirDenied e)
      then show ?thesis using Some by (simp add: generate_prompt_def prune_def)
    qed
  qed
  have c: "\<not> has_ignored_dir c (prune c root)"
    unfolding has_ignored_dir_def prune_def by (rule prune_by_clean) simp
  have i: "\<not> has_ignored_dir c root \<longrightarrow> prune c root = root"
    unfolding has_ignored_dir_def prune_def by (simp add: prune_by_id)
  have v: "\<forall>v \<in> set (visited_dirs c root_dir [] root). \<forall>d \<in> set (fst (snd v)). d \<notin> ignored_dirs c"
    using visited_comps[of _ c root_dir "[]" root] by auto
  show ?thesis using w t g c i v by blast
qed

theorem ignored_directories_skipped_witness:
  "has_ignored_dir generator_config example_root
   \<and> prune generator_config example_root = Dir [(''a.txt'', File (text_file (''hello'' @ nl)))]
   \<and> create_repo_summary generator_config ''/tmp/repo''
         (Dir [(''a.txt'', File (text_file (''hello'' @ nl)))])
       = create_repo_summary generator_config ''/tmp/repo'' example_root
   \<and> create_repo_summary generator_config ''/tmp/repo'' example_root =
       ([Scandir ''/tmp/repo'', Getsize ''/tmp/repo/a.txt'', Open ''/tmp/repo/a.txt''],
        Inr [\<lparr>directory = [], files = [\<lparr>name = ''a.txt'', summary = ''hello''\<rparr>]\<rparr>])
   \<and> create_directory_tree generator_config ''/tmp/repo''
         (Dir [(''a.txt'', File (text_file (''hello'' @ nl)))])
       = create_directory_tree generator_config ''/tmp/repo'' example_root
   \<and> create_directory_tree generator_config ''/tmp/repo'' example_root
       = Inr (''repo/'' @ nl @ branch_last @ ''a.txt'')"
proof -
  have h: "has_ignored_dir generator_config example_root"
    by (simp add: has_ignored_dir_def example_root_def generator_config_def IGNORED_DIRS_def)
  show ?thesis
    using ignored_directories_skipped[of generator_config "''/tmp/repo''" example_root]
      h walk_example_root tree_example_root
    unfolding prune_example_root by simp
qed

text \<open>
  The root is not an entry of a listing, so its own name is never tested: a root named
  \<open>.git\<close> is rendered and walked.
\<close>

lemma root_is_not_filtered:
  "create_repo_summary generator_config ''/x/.git'' (Dir [(''config'', File (text_file ''c''))]) =
     ([Scandir ''/x/.git'', Getsize ''/x/.git/config'', Open ''/x/.git/config''],
      Inr [\<lparr>directory = [], files = [\<lparr>name = ''config'', summary = ''c''\<rparr>]\<rparr>])
   \<and> create_directory_tree generator_config ''/x/.git'' (Dir [(''config'', File (text_file ''c''))])
     = Inr (''.git/'' @ nl @ branch_last @ ''config'')"
  by (simp add: eval_defs tree_eval_defs)

lemma generate_prompt_Some:
  "is_dir n \<Longrightarrow>
   generate_prompt c repo_dir (Some n) system_message user_instructions =
     (case create_directory_tree c repo_dir n of
        Inl e \<Rightarrow> Inl e
      | Inr directory_tree \<Rightarrow>
          (case snd (create_repo_summary c repo_dir n) of
             Inl e \<Rightarrow> Inl e
           | Inr repo_summary \<Rightarrow>
               Inr (format_prompt_xml repo_summary directory_tree
                      system_message user_instructions)))"
  by (cases n; hypsubst; simp add: generate_prompt_def)

lemma prompt_example_root:
  \<open>generate_prompt generator_config ''/tmp/repo'' (Some example_root) (Some []) (Some []) =
     Inr (join nl
       [''DIRECTORY TREE:'', ''repo/'', branch_last @ ''a.txt'', [],
        ''<SYSTEM_MESSAGE>'', ''No system message provided.'', ''</SYSTEM_MESSAGE>'', [],
        ''<USER_INSTRUCTIONS>'', ''No user instructions provided.'', ''</USER_INSTRUCTIONS>'', [],
        ''<REPOSITORY_CONTENTS>'',
        ''  <directory name="(top-level)">'',
        ''    <file name="a.txt">'',
        ''      <content>'',
        ''         hello'',
        ''      </content>'',
        ''    </file>'',
        ''  </directory>'',
        ''</REPOSITORY_CONTENTS>''])\<close>
proof -
  have d: "is_dir example_root" by (simp add: example_root_def)
  show ?thesis
    unfolding generate_prompt_Some[OF d] tree_example_root walk_example_root
    by (simp add: format_prompt_xml_def prompt_parts_def message_or_def directory_parts_def
          file_parts_def content_lines_def split_def nl_def)
qed



lemma prune_by_filter:
  "prune_by rm (Dir (filter (\<lambda>x. \<not> rm (fst x) (snd x)) es)) = prune_by rm (Dir es)"
  unfolding prune_by_Dir by simp

text \<open>
  C9. The tree renderer filters every entry by name: the tree is the same as on the
  directory tree from which every entry with a name in the ignored-directory set, file or
  directory, has been deleted, and each directory renders as if it had no such entry. The
  walker applies that filter to directories only: when the walk returns, a file of a
  visited directory that has such a name, and whose extension is not ignored, is recorded
  under its name in the entry of its directory. So the tree and the contents disagree on
  that file.
\<close>

theorem file_named_like_ignored_dir:
  assumes "create_repo_summary c root_dir root = (evs, Inr repo_summary)"
      and "(current_path, comps, es) \<in> set (visited_dirs c root_dir [] root)"
      and "(filename, f) \<in> set (nondirs es)"
      and "filename \<in> ignored_dirs c"
      and "lower (snd (splitext filename)) \<notin> ignored_extensions c"
  shows "create_directory_tree c root_dir (prune_names c root) = create_directory_tree c root_dir root
       \<and> \<not> has_ignored_name c (prune_names c root)
       \<and> walk_directory c (Dir (filter (\<lambda>x. fst x \<notin> ignored_dirs c) es)) prefix
           = walk_directory c (Dir es) prefix
       \<and> (filename, File f) \<notin> set (filter (\<lambda>x. fst x \<notin> ignored_dirs c) es)
       \<and> dir_entry_of c (current_path, comps, es) \<in> set repo_summary
       \<and> summary_of c (filename, f) \<in> set (files (dir_entry_of c (current_path, comps, es)))
       \<and> name (summary_of c (filename, f)) = filename"
proof -
  have wd: "walk_directory c (prune_names c n) pre = walk_directory c n pre" for n pre
    unfolding prune_names_def by (rule walk_directory_prune_by) simp
  have t: "create_directory_tree c root_dir (prune_names c root)
             = create_directory_tree c root_dir root"
    by (simp add: create_directory_tree_def wd)
  have cl: "\<not> has_ignored_name c (prune_names c root)"
    unfolding has_ignored_name_def prune_names_def by (rule prune_by_clean) simp
  have "prune_names c (Dir (filter (\<lambda>x. fst x \<notin> ignored_dirs c) es)) = prune_names c (Dir es)"
    unfolding prune_names_def
    using prune_by_filter[of "\<lambda>a n. a \<in> ignored_dirs c" es] by simp
  then have one: "walk_directory c (Dir (filter (\<lambda>x. fst x \<notin> ignored_dirs c) es)) prefix
                    = walk_directory c (Dir es) prefix"
    using wd[of "Dir (filter (\<lambda>x. fst x \<notin> ignored_dirs c) es)" prefix] wd[of "Dir es" prefix]
    by simp
  have gone: "(filename, File f) \<notin> set (filter (\<lambda>x. fst x \<notin> ignored_dirs c) es)"
    using assms(4) by simp
  have el: "eligible c filename" using assms(5) by (simp add: eligible_def)
  have mem: "(filename, f) \<in> set (nondirs (snd (snd (current_path, comps, es))))"
    using assms(3) by simp
  have nm: "name (summary_of c (filename, f)) = filename"
    by (simp add: summary_of_def)
  show ?thesis
    using t cl one gone eligible_file_recorded[OF assms(1,2) mem el] nm by blast
qed

lemma walk_listing_c:
  "create_repo_summary generator_config ''repo'' (Dir listing_c) =
     ([Scandir ''repo'', Getsize ''repo/b.txt'', Open ''repo/b.txt'',
       Getsize ''repo/.git'', Open ''repo/.git''],
      Inr [\<lparr>directory = [],
            files = [\<lparr>name = ''b.txt'', summary = ''bee''\<rparr>,
                     \<lparr>name = ''.git'', summary = ''gitdir: x''\<rparr>]\<rparr>])"
  by (simp add: eval_defs listing_c_def)

lemma tree_listing_c:
  "create_directory_tree generator_config ''repo'' (Dir listing_c)
     = Inr (''repo/'' @ nl @ branch_last @ ''b.txt'')"
  by (simp add: tree_eval_defs listing_c_def)

theorem file_named_like_ignored_dir_witness:
  "create_directory_tree generator_config ''repo'' (Dir listing_c)
     = Inr (''repo/'' @ nl @ branch_last @ ''b.txt'')
   \<and> create_directory_tree generator_config ''repo'' (prune_names generator_config (Dir listing_c))
     = create_directory_tree generator_config ''repo'' (Dir listing_c)
   \<and> prune_names generator_config (Dir listing_c) = Dir [(''b.txt'', File (text_file ''bee''))]
   \<and> create_repo_summary generator_config ''repo'' (Dir listing_c) =
     ([Scandir ''repo'', Getsize ''repo/b.txt'', Open ''repo/b.txt'',
       Getsize ''repo/.git'', Open ''repo/.git''],
      Inr [\<lparr>directory = [],
            files = [\<lparr>name = ''b.txt'', summary = ''bee''\<rparr>,
                     \<lparr>name = ''.git'', summary = ''gitdir: x''\<rparr>]\<rparr>])
   \<and> summary_of generator_config (''.git'', text_file ''gitdir: x'')
       \<in> set (files (dir_entry_of generator_config (''repo'', [], listing_c)))"
proof -
  have 1: "(''repo'', [], listing_c)
             \<in> set (visited_dirs generator_config ''repo'' [] (Dir listing_c))"
    by (simp add: listing_c_def)
  have 2: "(''.git'', text_file ''gitdir: x'') \<in> set (nondirs listing_c)"
    by (simp add: listing_c_def)
  have 3: "''.git'' \<in> ignored_dirs generator_config"
    by (simp add: generator_config_def IGNORED_DIRS_def)
  have 4: "lower (snd (splitext ''.git'')) \<notin> ignored_extensions generator_config"
    by (simp add: eval_defs)
  have p: "prune_names generator_config (Dir listing_c) = Dir [(''b.txt'', File (text_file ''bee''))]"
    by (simp add: prune_names_def listing_c_def generator_config_def IGNORED_DIRS_def)
  note th = file_named_like_ignored_dir[OF walk_listing_c 1 2 3 4, of "[]"]
  have a: "create_directory_tree generator_config ''repo''
             (prune_names generator_config (Dir listing_c))
           = create_directory_tree generator_config ''repo'' (Dir listing_c)"
    using th by blast
  have b: "summary_of generator_config (''.git'', text_file ''gitdir: x'')
             \<in> set (files (dir_entry_of generator_config (''repo'', [], listing_c)))"
    using th by blast
  show ?thesis
    by (intro conjI) (rule tree_listing_c a p walk_listing_c b)+
qed

text \<open>Under the default sets, no ignored-directory name has an ignored extension.\<close>

lemma default_ignored_names_have_no_ignored_extension:
  "a \<in> IGNORED_DIRS \<Longrightarrow> lower (snd (splitext a)) \<notin> IGNORED_EXTENSIONS"
  by (auto simp: IGNORED_DIRS_def IGNORED_EXTENSIONS_def splitext_def rfind_def lower_def)

text \<open>
  C4. A failure of \<open>os.path.getsize\<close> on one file (here a dangling symbolic link) is not
  caught: it ends the whole run with that exception, in both variants. So does a failure
  of \<open>os.listdir\<close> in the tree renderer.
\<close>

theorem stat_failure_escapes:
  "generate_prompt generator_config ''repo'' (Some (Dir [(''link'', File dangling_link)]))
       (Some []) (Some [])
     = Inl (OSError ''[Errno 2] No such file or directory'')
   \<and> generate_prompt repoforge_default_config ''repo'' (Some (Dir [(''link'', File dangling_link)]))
       (Some []) (Some [])
     = Inl (OSError ''[Errno 2] No such file or directory'')
   \<and> generate_prompt generator_config ''repo''
       (Some (Dir [(''locked'', DirDenied (OSError ''[Errno 13] Permission denied''))]))
       (Some []) (Some [])
     = Inl (OSError ''[Errno 13] Permission denied'')"
  by (simp add: generate_prompt_def tree_eval_defs eval_defs dangling_link_def)

text \<open>
  What does hold of failures: a failure to open or read a file becomes the summary of that
  file, and the walk returns whenever \<open>getsize\<close> succeeds on every eligible file of the
  visited directories.
\<close>

lemma summarize_read_failure:
  "read_fails (f::fsfile) = Some e \<Longrightarrow> length (readlines (content f)) \<le> nat max_lines \<Longrightarrow>
   summarize_text_file f max_lines = ''Error reading file: '' @ str_error e"
  by (simp add: summarize_text_file_def summarize_loop_eq)

lemma file_loop_returns:
  "\<forall>x \<in> set fs. eligible c (fst x) \<longrightarrow> (\<exists>sz. st_size (snd x) = Inr sz) \<Longrightarrow>
   \<exists>r. snd (file_loop c p fs acc) = Inr r"
proof (induction fs arbitrary: acc)
  case Nil
  then show ?case by simp
next
  case (Cons x fs)
  obtain a f where x: "x = (a, f)" by (cases x)
  from Cons.prems have rest:
    "\<forall>x \<in> set fs. eligible c (fst x) \<longrightarrow> (\<exists>sz. st_size (snd x) = Inr sz)" by simp
  note IH = Cons.IH[OF rest]
  show ?case
  proof (cases "eligible c a")
    case False
    then show ?thesis using x IH by (simp add: eligible_def)
  next
    case True
    with Cons.prems x obtain sz where sz: "st_size f = Inr sz" by auto
    show ?thesis using x True sz IH by (simp add: eligible_def Let_def after_def)
  qed
qed

lemma os_walk_returns:
  "\<forall>v \<in> set (visited_dirs c p comps n). \<forall>x \<in> set (nondirs (snd (snd v))).
      eligible c (fst x) \<longrightarrow> (\<exists>sz. st_size (snd x) = Inr sz) \<Longrightarrow>
   \<exists>ents. snd (os_walk c p comps n) = Inr ents"
proof (induction n arbitrary: p comps rule: fsnode.induct)
  case (File f)
  then show ?case by simp
next
  case (DirDenied e)
  then show ?case by simp
next
  case (Dir es)
  let ?keep = "\<lambda>x. is_dir (snd x) \<and> fst x \<notin> ignored_dirs c"
  let ?sub = "\<lambda>x. os_walk c (path_join p (fst x)) (comps @ [fst x]) (snd x)"
  from Dir.prems have here:
    "\<forall>x \<in> set (nondirs es). eligible c (fst x) \<longrightarrow> (\<exists>sz. st_size (snd x) = Inr sz)"
    unfolding visited_dirs_Dir by simp
  from file_loop_returns[OF here] obtain r where r: "snd (file_loop c p (nondirs es) []) = Inr r"
    by blast
  have sub: "\<exists>xs. snd (?sub x) = Inr xs" if x: "x \<in> set (filter ?keep es)" for x
  proof -
    obtain a m where xn: "x = (a, m)" by (cases x)
    with x have mem: "(a, m) \<in> set es" by auto
    have s: "m \<in> Basic_BNFs.snds (a, m)" by simp
    have "\<forall>v \<in> set (visited_dirs c (path_join p a) (comps @ [a]) m).
            \<forall>x \<in> set (nondirs (snd (snd v))).
              eligible c (fst x) \<longrightarrow> (\<exists>sz. st_size (snd x) = Inr sz)"
      using Dir.prems x xn unfolding visited_dirs_Dir by force
    from Dir.IH[OF mem s this] show ?thesis using xn by simp
  qed
  have "\<forall>r \<in> set ((case file_loop c p (nondirs es) [] of
           (evs, Inl e) \<Rightarrow> (Scandir p # evs, Inl e)
         | (evs, Inr file_summaries) \<Rightarrow>
             (Scandir p # evs,
              Inr (if file_summaries \<noteq> []
                   then [\<lparr>directory = rel_dir_of comps, files = file_summaries\<rparr>] else []))) #
        map ?sub (filter ?keep es)). \<exists>xs. snd r = Inr xs"
    using r sub by (auto split: prod.splits sum.splits)
  from io_seq_all_ok[OF this] show ?case
    unfolding os_walk_Dir by simp
qed

end
